theory Spec2Isabelle
  imports Main
begin

section \<open>Network requests and promise outcomes\<close>

text \<open>
  A request as \<^verbatim>\<open>fetch(url, {method, body, credentials, headers})\<close> issues it. A response
  carries its HTTP status and the outcome of \<^verbatim>\<open>response.text()\<close> (\<open>Inl\<close> when reading the
  body rejects, \<open>Inr\<close> the text). A rejected promise carries its reason as a string.
\<close>

record request =
  req_method :: string
  req_url :: string
  req_headers :: "(string \<times> string) list"
  req_body :: "string option"
  req_credentials :: string

record response =
  status :: int
  body_text :: "string + string"

datatype 'a promise = Resolved 'a | Rejected string

section \<open>Navigation state\<close>

text \<open>
  The fields of \<^verbatim>\<open>AnimeNotifier\<close> and \<^verbatim>\<open>Application\<close> that the navigation routines read and
  write, and the effects they have on their surroundings, each as a log in call order:
  \<open>history\<close> holds the states pushed with \<^verbatim>\<open>history.pushState\<close>, \<open>fetched\<close> the requests
  issued, \<open>patched\<close> the markup strings handed to \<^verbatim>\<open>Diff.innerHTML(this.app.content, html)\<close>
  (the last entry is what the content subtree was last patched to), \<open>emitted\<close> the events
  sent with \<^verbatim>\<open>this.app.emit\<close>, \<open>console\<close> the errors written with \<^verbatim>\<open>console.error\<close>.
  \<open>cursor\<close> and \<open>loadingFadeOut\<close> are the two things \<^verbatim>\<open>loading\<close> sets on the document.
  \<^verbatim>\<open>markActiveLinks\<close> and \<^verbatim>\<open>unmountMountables\<close> change classes of elements only and are left
  out of this state.
\<close>

record app =
  currentPath :: string
  isLoading :: bool
  diffCompletedForCurrentPath :: bool
  lastReloadContentPath :: string
  cursor :: string
  loadingFadeOut :: bool
  history :: "string list"
  fetched :: "request list"
  patched :: "string list"
  emitted :: "string list"
  console :: "string list"

definition loading :: "bool \<Rightarrow> app \<Rightarrow> app" where
  "loading newState s =
     (if newState
      then s\<lparr>isLoading := newState, cursor := ''progress'', loadingFadeOut := False\<rparr>
      else s\<lparr>isLoading := newState, cursor := ''auto'', loadingFadeOut := True\<rparr>)"

definition fetch :: "request \<Rightarrow> app \<Rightarrow> app" where
  "fetch r s = s\<lparr>fetched := fetched s @ [r]\<rparr>"

definition emit :: "string \<Rightarrow> app \<Rightarrow> app" where
  "emit e s = s\<lparr>emitted := emitted s @ [e]\<rparr>"

definition console_error :: "string \<Rightarrow> app \<Rightarrow> app" where
  "console_error e s = s\<lparr>console := console s @ [e]\<rparr>"

definition Diff_innerHTML :: "string \<Rightarrow> app \<Rightarrow> app" where
  "Diff_innerHTML html s = s\<lparr>patched := patched s @ [html]\<rparr>"

section \<open>The navigation routine \<^verbatim>\<open>diff\<close>\<close>

text \<open>
  \<^verbatim>\<open>diff(url)\<close> is an async function: it runs until an \<^verbatim>\<open>await\<close>, and other calls and
  callbacks run before it resumes. It is modelled in the three pieces between its
  suspension points; the only local variable alive across them is \<open>url\<close>.

  \<^item> \<open>diff_call\<close>: from the call to \<^verbatim>\<open>await delay(150)\<close>. \<open>push_result\<close> is what
    \<^verbatim>\<open>history.pushState(url, null, url)\<close> does: \<open>None\<close> when it returns, \<open>Some\<close> the exception
    when it throws (the browser throws a \<^verbatim>\<open>SecurityError\<close> for a \<open>url\<close> of another origin).
    A throw happens inside the \<^verbatim>\<open>try\<close>, after the request was started and before any field
    is written: the \<^verbatim>\<open>catch\<close> block logs it, the \<^verbatim>\<open>finally\<close> block clears the loading
    flag and the call is over. The first component of the result is the outcome when the
    call ended (the early null, or the throw), and \<open>None\<close> when it waits.
  \<^item> \<open>diff_response\<close>: from \<^verbatim>\<open>let html = await request\<close> on, given the outcome of the
    request promise (\<open>Inl\<close> a rejection of \<^verbatim>\<open>fetch\<close> or of \<^verbatim>\<open>response.text()\<close>, \<open>Inr\<close> the
    markup), to \<^verbatim>\<open>await Diff.innerHTML(...)\<close> or to the end of the routine.
  \<^item> \<open>diff_patched\<close>: from the end of \<^verbatim>\<open>await Diff.innerHTML(...)\<close> (\<open>Some\<close> an error when
    the patch promise rejects) to the end of the routine.

  The \<^verbatim>\<open>finally\<close> block runs at every exit of the \<^verbatim>\<open>try\<close> block; the early
  \<^verbatim>\<open>return null\<close> stands before the \<^verbatim>\<open>try\<close>.
\<close>

datatype diff_outcome =
  ReturnedNull | PushFailed | PatchApplied | Discarded | FetchFailed | PatchFailed

definition diff_call :: "string \<Rightarrow> string option \<Rightarrow> app \<Rightarrow> diff_outcome option \<times> app" where
  "diff_call url push_result s =
     (if url = currentPath s then (Some ReturnedNull, s)
      else
        let path = ''/_'' @ url;
            s1 = fetch \<lparr>req_method = ''GET'', req_url = path, req_headers = [],
                        req_body = None, req_credentials = ''same-origin''\<rparr> s
        in (case push_result of
              Some err \<Rightarrow> (Some PushFailed, loading False (console_error err s1))
            | None \<Rightarrow>
                let s2 = s1\<lparr>history := history s1 @ [url]\<rparr>;
                    s3 = s2\<lparr>currentPath := url\<rparr>;
                    s4 = s3\<lparr>diffCompletedForCurrentPath := False\<rparr>
                in (None, loading True s4)))"

definition diff_response :: "string \<Rightarrow> string + string \<Rightarrow> app \<Rightarrow> diff_outcome option \<times> app" where
  "diff_response url result s =
     (case result of
        Inl err \<Rightarrow> (Some FetchFailed, loading False (console_error err s))
      | Inr html \<Rightarrow>
          if \<not> diffCompletedForCurrentPath s
          then
            let s1 = (if currentPath s = url
                      then s\<lparr>diffCompletedForCurrentPath := True\<rparr> else s)
            in (None, Diff_innerHTML html s1)
          else (Some Discarded, loading False s))"

definition diff_patched :: "string \<Rightarrow> string option \<Rightarrow> app \<Rightarrow> diff_outcome \<times> app" where
  "diff_patched url result s =
     (case result of
        None \<Rightarrow> (PatchApplied, loading False (emit ''DOMContentLoaded'' s))
      | Some err \<Rightarrow> (PatchFailed, loading False (console_error err s)))"

text \<open>
  One call run to its end with nothing in between: what \<^verbatim>\<open>history.pushState\<close> does and the
  outcome of the request and of the patch are given.
\<close>

definition diff ::
  "string \<Rightarrow> string option \<Rightarrow> string + string \<Rightarrow> string option \<Rightarrow> app \<Rightarrow> diff_outcome \<times> app" where
  "diff url push_result fetch_result patch_result s =
     (case diff_call url push_result s of
        (Some out, s1) \<Rightarrow> (out, s1)
      | (None, s1) \<Rightarrow>
          (case diff_response url fetch_result s1 of
             (Some out, s2) \<Rightarrow> (out, s2)
           | (None, s2) \<Rightarrow> diff_patched url patch_result s2))"

text \<open>
  Overlapping navigations are sequences of events on the one event loop: a call of
  \<^verbatim>\<open>diff\<close>, the resumption of the call for \<open>url\<close> with the outcome of its request, and the
  resumption of the call for \<open>url\<close> after its patch. A call resumes with the outcome of its
  request once both its 150 ms delay and its request are over, so of two calls in flight
  either may resume first, whichever request was answered first. A step gives the outcome
  of the call that ended in it, if one did.
\<close>

datatype nav_event =
    Navigate string "string option"
  | Response string "string + string"
  | PatchDone string "string option"

fun nav_step :: "nav_event \<Rightarrow> app \<Rightarrow> diff_outcome option \<times> app" where
  "nav_step (Navigate url push_result) s = diff_call url push_result s"
| "nav_step (Response url result) s = diff_response url result s"
| "nav_step (PatchDone url result) s =
     (case diff_patched url result s of (out, s1) \<Rightarrow> (Some out, s1))"

fun run :: "nav_event list \<Rightarrow> app \<Rightarrow> app" where
  "run [] s = s"
| "run (e # es) s = run es (snd (nav_step e s))"

text \<open>
  The state once \<^verbatim>\<open>run\<close> has finished on a page loaded at \<open>path\<close>: the constructor set
  \<^verbatim>\<open>isLoading\<close> and \<^verbatim>\<open>run\<close> ends with \<^verbatim>\<open>loading(false)\<close>; the other fields have not been
  written (an unset \<^verbatim>\<open>diffCompletedForCurrentPath\<close> is falsy).
\<close>

definition idle_app :: "string \<Rightarrow> app" where
  "idle_app path =
     \<lparr>currentPath = path, isLoading = False, diffCompletedForCurrentPath = False,
      lastReloadContentPath = [], cursor = ''auto'', loadingFadeOut = True,
      history = [], fetched = [], patched = [], emitted = [], console = []\<rparr>"

section \<open>\<^verbatim>\<open>reloadContent\<close> and \<^verbatim>\<open>post\<close>\<close>

text \<open>
  \<^verbatim>\<open>reloadContent(cached?)\<close>: the optional flag is \<open>None\<close> when the argument is left out, and
  \<^verbatim>\<open>!cached\<close> holds for a missing flag as for \<^verbatim>\<open>false\<close>. The call returns its promise at once;
  \<open>reloadContent_call\<close> gives the captured \<open>path\<close> with the new state, and
  \<open>reloadContent_response\<close> runs the chain of \<^verbatim>\<open>then\<close> handlers on the outcome of the fetch.
\<close>

definition reloadContent_call :: "bool option \<Rightarrow> app \<Rightarrow> string \<times> app" where
  "reloadContent_call cached s =
     (let headers = (if cached \<noteq> Some True
                     then [(''X-Reload'', ''true'')]
                     else [(''X-CacheOnly'', ''true'')]);
          path = currentPath s;
          s1 = s\<lparr>lastReloadContentPath := path\<rparr>
      in (path, fetch \<lparr>req_method = ''GET'', req_url = ''/_'' @ path, req_headers = headers,
                       req_body = None, req_credentials = ''same-origin''\<rparr> s1))"

definition reloadContent_response :: "string \<Rightarrow> string + response \<Rightarrow> app \<Rightarrow> unit promise \<times> app" where
  "reloadContent_response path result s =
     (case result of
        Inl err \<Rightarrow> (Rejected err, s)
      | Inr r \<Rightarrow>
          if currentPath s \<noteq> path then (Rejected ''old request'', s)
          else
            (case body_text r of
               Inl err \<Rightarrow> (Rejected err, s)
             | Inr html \<Rightarrow> (Resolved (), emit ''DOMContentLoaded'' (Diff_innerHTML html s))))"

text \<open>
  \<^verbatim>\<open>post(url, body)\<close>: \<open>body\<close> is any value; \<^verbatim>\<open>JSON.stringify\<close> is the parameter \<open>stringify\<close>.
  \<open>post_call\<close> runs to the \<^verbatim>\<open>return\<close>: its first component is the promise when it is already
  settled, and \<open>None\<close> when it waits for the fetch. \<open>post_response\<close> runs the \<^verbatim>\<open>then\<close> and
  \<^verbatim>\<open>catch\<close> handlers on the outcome of the fetch (\<open>Inl\<close> when the fetch itself rejects).
\<close>

datatype 'a js_value = JsString string | JsOther 'a

definition post_call ::
  "('a \<Rightarrow> string) \<Rightarrow> string \<Rightarrow> 'a js_value \<Rightarrow> app \<Rightarrow> response option promise option \<times> app" where
  "post_call stringify url body s =
     (if isLoading s then (Some (Resolved None), s)
      else
        let body1 = (case body of JsString b \<Rightarrow> b | JsOther v \<Rightarrow> stringify v);
            s1 = loading True s
        in (None, fetch \<lparr>req_method = ''POST'', req_url = url, req_headers = [],
                         req_body = Some body1, req_credentials = ''same-origin''\<rparr> s1))"

definition post_response :: "string + response \<Rightarrow> app \<Rightarrow> response option promise \<times> app" where
  "post_response result s =
     (case result of
        Inl err \<Rightarrow> (Rejected err, loading False s)
      | Inr r \<Rightarrow>
          let s1 = loading False s
          in if status r = 200 then (Resolved (Some r), s1)
             else
               (case body_text r of
                  Inr err \<Rightarrow> (Rejected err, loading False s1)
                | Inl err \<Rightarrow> (Rejected err, loading False s1)))"

section \<open>Elements\<close>

text \<open>
  An element of the document, with what the routines below read and write: its identity,
  tag name, class list, \<^verbatim>\<open>data-*\<close> attributes (\<^verbatim>\<open>dataset\<close>, keyed as the script reads them),
  its registered event listeners (event type and handler identity), whether an \<^verbatim>\<open>onclick\<close>
  handler is set, and the \<^verbatim>\<open>"action assigned"\<close> property.
\<close>

record assignment =
  a_trigger :: string
  a_action :: string
  a_handler :: nat

record element =
  eid :: nat
  tagName :: string
  classList :: "string list"
  dataset :: "(string \<times> string) list"
  listeners :: "(string \<times> nat) list"
  onclick :: bool
  action_assigned :: "assignment option"

definition data :: "string \<Rightarrow> element \<Rightarrow> string option" where
  "data k e = map_of (dataset e) k"

definition contains :: "string \<Rightarrow> element \<Rightarrow> bool" where
  "contains c e = (c \<in> set (classList e))"

section \<open>Staggered mounting: \<^verbatim>\<open>modifyDelayed\<close>\<close>

text \<open>
  The first loop of \<^verbatim>\<open>modifyDelayed\<close> computes, per mountable type, the list of
  \<^verbatim>\<open>{element, time}\<close> entries. \<open>start\<close> is the value \<^verbatim>\<open>Date.now()\<close> returned.
  \<^verbatim>\<open>mountableTypes\<close> is a map from type to the last time stored for it;
  \<^verbatim>\<open>mountableTypeMutations\<close> is a \<^verbatim>\<open>Map\<close> iterated in insertion order, here a list of keys with
  their arrays.
\<close>

definition maxDelay :: int where "maxDelay = 1000"
definition delay :: int where "delay = 18"

record mutation =
  mut_element :: nat
  mut_time :: int

record schedule =
  mountableTypes :: "string \<Rightarrow> int option"
  mountableTypeMutations :: "(string \<times> mutation list) list"

definition mountable_type :: "element \<Rightarrow> string" where
  "mountable_type e =
     (case data ''mountableType'' e of
        None \<Rightarrow> ''general''
      | Some t \<Rightarrow> if t = [] then ''general'' else t)"

fun push_mutation :: "string \<Rightarrow> mutation \<Rightarrow> (string \<times> mutation list) list \<Rightarrow> (string \<times> mutation list) list" where
  "push_mutation ty m [] = []"
| "push_mutation ty m ((k, ms) # rest) =
     (if k = ty then (k, ms @ [m]) # rest else (k, ms) # push_mutation ty m rest)"

definition modifyDelayed_step :: "int \<Rightarrow> schedule \<Rightarrow> element \<Rightarrow> schedule" where
  "modifyDelayed_step start st e =
     (if contains ''mounted'' e then st
      else
        let maxTime = start + maxDelay;
            ty = mountable_type e;
            (time, st1) =
              (case mountableTypes st ty of
                 Some t \<Rightarrow>
                   (t + delay, st\<lparr>mountableTypes := (mountableTypes st)(ty \<mapsto> t + delay)\<rparr>)
               | None \<Rightarrow>
                   (start, st\<lparr>mountableTypes := (mountableTypes st)(ty \<mapsto> start),
                               mountableTypeMutations := mountableTypeMutations st @ [(ty, [])]\<rparr>));
            time1 = (if time > maxTime then maxTime else time)
        in st1\<lparr>mountableTypeMutations :=
                 push_mutation ty \<lparr>mut_element = eid e, mut_time = time1\<rparr>
                   (mountableTypeMutations st1)\<rparr>)"

definition modifyDelayed :: "int \<Rightarrow> element list \<Rightarrow> schedule" where
  "modifyDelayed start elements =
     foldl (modifyDelayed_step start)
       \<lparr>mountableTypes = Map.empty, mountableTypeMutations = []\<rparr> elements"

definition mutations_of :: "schedule \<Rightarrow> string \<Rightarrow> mutation list" where
  "mutations_of st ty = (case map_of (mountableTypeMutations st) ty of None \<Rightarrow> [] | Some ms \<Rightarrow> ms)"

section \<open>Lazy loading and the visibility observer\<close>

text \<open>
  \<open>supported\<close> is the test \<^verbatim>\<open>"IntersectionObserver" in window\<close> the constructor makes.
  \<open>observed\<close> holds the targets the browser's observer watches, and \<open>invoked\<close> logs each call
  of an element's \<^verbatim>\<open>"became visible"\<close> callback, in order, by the element's identity.

  The callback is the closure \<^verbatim>\<open>lazyLoadImage\<close> or \<^verbatim>\<open>lazyLoadIFrame\<close> stored on the element. The
  one of an image starts with \<^verbatim>\<open>element.dataset.src.lastIndexOf(".")\<close>, which throws a
  \<^verbatim>\<open>TypeError\<close> when the image has no \<^verbatim>\<open>data-src\<close>; the one of an inline frame does not throw.
  An element of another tag carries no callback, and calling it throws. What a callback that
  returns does to the element's source is not part of this state. A function that can throw
  gives \<open>Some\<close> the exception with the state at the throw, and \<open>None\<close> when it returns.
\<close>

record lazy =
  supported :: bool
  observed :: "nat list"
  invoked :: "nat list"

definition became_visible :: "element \<Rightarrow> lazy \<Rightarrow> string option \<times> lazy" where
  "became_visible e st =
     (if tagName e = ''IMG''
      then (case data ''src'' e of
              None \<Rightarrow> (Some ''TypeError'', st\<lparr>invoked := invoked st @ [eid e]\<rparr>)
            | Some dataSrc \<Rightarrow> (None, st\<lparr>invoked := invoked st @ [eid e]\<rparr>))
      else if tagName e = ''IFRAME''
      then (None, st\<lparr>invoked := invoked st @ [eid e]\<rparr>)
      else (Some ''TypeError'', st))"

text \<open>
  With support, \<^verbatim>\<open>observe\<close>, \<^verbatim>\<open>unobserve\<close> and \<^verbatim>\<open>disconnect\<close> are the browser's: they add a
  target to the watched set (once), remove it, and empty the set. Without support they are
  the three functions of the object the constructor builds: \<^verbatim>\<open>observe\<close> calls the callback
  and the other two do nothing.
\<close>

definition observe :: "element \<Rightarrow> lazy \<Rightarrow> string option \<times> lazy" where
  "observe e st =
     (if supported st
      then (None, if eid e \<in> set (observed st) then st
                  else st\<lparr>observed := observed st @ [eid e]\<rparr>)
      else became_visible e st)"

definition unobserve :: "element \<Rightarrow> lazy \<Rightarrow> lazy" where
  "unobserve e st =
     (if supported st then st\<lparr>observed := removeAll (eid e) (observed st)\<rparr> else st)"

definition disconnect :: "lazy \<Rightarrow> lazy" where
  "disconnect st = (if supported st then st\<lparr>observed := []\<rparr> else st)"

text \<open>
  The function the constructor hands to \<^verbatim>\<open>new IntersectionObserver\<close>: the browser calls it
  with a list of entries, each a target and its \<^verbatim>\<open>isIntersecting\<close> flag. A throw of a
  target's callback leaves the loop: the target is not unobserved and the entries after it
  are not looked at.
\<close>

fun visibility_callback :: "(element \<times> bool) list \<Rightarrow> lazy \<Rightarrow> string option \<times> lazy" where
  "visibility_callback [] st = (None, st)"
| "visibility_callback ((target, isIntersecting) # entries) st =
     (if isIntersecting
      then (case became_visible target st of
              (Some err, st1) \<Rightarrow> (Some err, st1)
            | (None, st1) \<Rightarrow> visibility_callback entries (unobserve target st1))
      else visibility_callback entries st)"

text \<open>
  \<^verbatim>\<open>lazyLoadImage\<close> and \<^verbatim>\<open>lazyLoadIFrame\<close> store the callback on the element and observe it;
  \<^verbatim>\<open>lazyLoad\<close> dispatches on the tag name over the elements its iterator yields. A throw of
  \<^verbatim>\<open>observe\<close> (the eager fallback calling a callback that throws) leaves the loop, and the
  elements after it are not observed.
\<close>

definition lazyLoadImage :: "element \<Rightarrow> lazy \<Rightarrow> string option \<times> lazy" where
  "lazyLoadImage e st = observe e st"

definition lazyLoadIFrame :: "element \<Rightarrow> lazy \<Rightarrow> string option \<times> lazy" where
  "lazyLoadIFrame e st = observe e st"

fun lazyLoad :: "element list \<Rightarrow> lazy \<Rightarrow> string option \<times> lazy" where
  "lazyLoad [] st = (None, st)"
| "lazyLoad (e # es) st =
     (if tagName e = ''IMG''
      then (case lazyLoadImage e st of
              (Some err, st1) \<Rightarrow> (Some err, st1)
            | (None, st1) \<Rightarrow> lazyLoad es st1)
      else if tagName e = ''IFRAME''
      then (case lazyLoadIFrame e st of
              (Some err, st1) \<Rightarrow> (Some err, st1)
            | (None, st1) \<Rightarrow> lazyLoad es st1)
      else lazyLoad es st)"

text \<open>
  \<^verbatim>\<open>onContentLoaded\<close> runs on every \<^verbatim>\<open>DOMContentLoaded\<close> signal (after each applied patch): it
  disconnects the observer and lazy-loads the elements of class \<^verbatim>\<open>lazy\<close> now in the document.
\<close>

definition onContentLoaded_lazy :: "element list \<Rightarrow> lazy \<Rightarrow> string option \<times> lazy" where
  "onContentLoaded_lazy lazy_elements st = lazyLoad lazy_elements (disconnect st)"

section \<open>Action binding: \<^verbatim>\<open>assignActions\<close>\<close>

text \<open>
  Each handler the pass creates is a new closure; its identity is a number taken from the
  counter \<open>next_handler\<close>. \<open>status_errors\<close> logs the messages shown with
  \<^verbatim>\<open>statusMessage.showError\<close>. \<open>actions\<close> lists the names the \<^verbatim>\<open>Actions\<close> module exports.
  \<^verbatim>\<open>removeEventListener\<close> drops the listener with that type and handler;
  \<^verbatim>\<open>addEventListener\<close> appends one unless the same type and handler are registered already.
\<close>

record bind_state =
  next_handler :: nat
  status_errors :: "string list"

definition removeEventListener :: "string \<Rightarrow> nat \<Rightarrow> element \<Rightarrow> element" where
  "removeEventListener ty h e = e\<lparr>listeners := removeAll (ty, h) (listeners e)\<rparr>"

definition addEventListener :: "string \<Rightarrow> nat \<Rightarrow> element \<Rightarrow> element" where
  "addEventListener ty h e =
     (if (ty, h) \<in> set (listeners e) then e else e\<lparr>listeners := listeners e @ [(ty, h)]\<rparr>)"

definition register_action :: "string list \<Rightarrow> string \<Rightarrow> string \<Rightarrow> element \<Rightarrow> bind_state \<Rightarrow> element \<times> bind_state" where
  "register_action actions actionTrigger actionName e b =
     (let e1 = (if actionTrigger = ''click'' \<and> tagName e = ''A'' then e\<lparr>onclick := False\<rparr> else e)
      in if actionName \<notin> set actions
         then (e1, b\<lparr>status_errors := status_errors b
                       @ [''Action '' @ [CHR 0x27] @ actionName @ [CHR 0x27] @ '' has not been defined'']\<rparr>)
         else
           let actionHandler = next_handler b;
               e2 = addEventListener actionTrigger actionHandler e1
           in (e2\<lparr>action_assigned :=
                     Some \<lparr>a_trigger = actionTrigger, a_action = actionName,
                            a_handler = actionHandler\<rparr>\<rparr>,
               b\<lparr>next_handler := Suc actionHandler\<rparr>))"

definition assign_element :: "string list \<Rightarrow> element \<Rightarrow> bind_state \<Rightarrow> element \<times> bind_state" where
  "assign_element actions e b =
     (case (data ''trigger'' e, data ''action'' e) of
        (Some actionTrigger, Some actionName) \<Rightarrow>
          if actionTrigger = [] \<or> actionName = [] then (e, b)
          else
            (case action_assigned e of
               Some oldAction \<Rightarrow>
                 if a_trigger oldAction = actionTrigger \<and> a_action oldAction = actionName
                 then (e, b)
                 else register_action actions actionTrigger actionName
                        (removeEventListener (a_trigger oldAction) (a_handler oldAction) e) b
             | None \<Rightarrow> register_action actions actionTrigger actionName e b)
      | _ \<Rightarrow> (e, b))"

fun assignActions :: "string list \<Rightarrow> element list \<Rightarrow> bind_state \<Rightarrow> element list \<times> bind_state" where
  "assignActions actions [] b = ([], b)"
| "assignActions actions (e # es) b =
     (case assign_element actions e b of
        (e1, b1) \<Rightarrow> (case assignActions actions es b1 of (es1, b2) \<Rightarrow> (e1 # es1, b2)))"

section \<open>Persistence rules and the tree patcher\<close>

text \<open>
  \<^verbatim>\<open>Diff.persistentClasses\<close> and \<^verbatim>\<open>Diff.persistentAttributes\<close> are sets of names, shared by
  every patch. The constructor of \<^verbatim>\<open>AnimeNotifier\<close> adds to whatever they hold; a set keeps
  one copy of a name, in insertion order.
\<close>

record persistence =
  persistentClasses :: "string list"
  persistentAttributes :: "string list"

definition set_add :: "'a \<Rightarrow> 'a list \<Rightarrow> 'a list" where
  "set_add x xs = (if x \<in> set xs then xs else xs @ [x])"

definition constructor_persistence :: "persistence \<Rightarrow> persistence" where
  "constructor_persistence d =
     (let d1 = d\<lparr>persistentClasses := set_add ''mounted'' (persistentClasses d)\<rparr>;
          d2 = d1\<lparr>persistentClasses := set_add ''element-found'' (persistentClasses d1)\<rparr>;
          d3 = d2\<lparr>persistentClasses := set_add ''active'' (persistentClasses d2)\<rparr>
      in d3\<lparr>persistentAttributes := set_add ''src'' (persistentAttributes d3)\<rparr>)"

text \<open>
  A node of a markup tree: a text node, or an element with its identity, tag name, class
  list, other attributes and children.
\<close>

datatype node =
    TextNode string
  | ElementNode nat string "string list" "(string \<times> string) list" "node list"

text \<open>
  Modelled from the spec: the class list of a live element updated in place by the Tree
  Patcher (the module \<^verbatim>\<open>Diff\<close> that \<^verbatim>\<open>AnimeNotifier.ts\<close> imports; its source is missing).
  The element gets the target's classes, "except that any class in the persistent-class set
  already present on a live node is retained even if absent from the target".
\<close>

definition patch_classes :: "persistence \<Rightarrow> string list \<Rightarrow> string list \<Rightarrow> string list" where
  "patch_classes d live target =
     target @ filter (\<lambda>c. c \<in> set (persistentClasses d) \<and> c \<notin> set target) live"

text \<open>
  Modelled from the spec: the attributes of a live element updated in place by the Tree
  Patcher. Attributes are "diffed field-by-field" towards the target's, and "any attribute in
  the persistent-attribute set is never overwritten to empty/absent": where the target
  gives such an attribute the empty value the live value stays, and where the target lacks
  it the live attribute stays.
\<close>

definition patch_attributes ::
  "persistence \<Rightarrow> (string \<times> string) list \<Rightarrow> (string \<times> string) list \<Rightarrow> (string \<times> string) list" where
  "patch_attributes d live target =
     map (\<lambda>(k, v).
            if k \<in> set (persistentAttributes d) \<and> v = []
            then (case map_of live k of Some old \<Rightarrow> (k, old) | None \<Rightarrow> (k, v))
            else (k, v)) target
     @ filter (\<lambda>(k, v). k \<in> set (persistentAttributes d) \<and> k \<notin> fst ` set target) live"

text \<open>
  Modelled from the spec: the Tree Patcher's reconciliation of the live subtree against the
  target tree, "node-by-node: matching nodes are updated in place (attributes and text
  diffed field-by-field), unmatched live nodes are removed, unmatched target nodes are
  inserted". Nodes are matched by position among their siblings; two elements match when
  their tag names agree, and two text nodes match. A live element updated in place keeps
  its identity.
\<close>

fun patch_node :: "persistence \<Rightarrow> node \<Rightarrow> node \<Rightarrow> node"
  and patch_children :: "persistence \<Rightarrow> node list \<Rightarrow> node list \<Rightarrow> node list" where
  "patch_node d (ElementNode i tag cs ats ks) (ElementNode j tag' cs' ats' ks') =
     (if tag = tag'
      then ElementNode i tag (patch_classes d cs cs') (patch_attributes d ats ats')
             (patch_children d ks ks')
      else ElementNode j tag' cs' ats' ks')"
| "patch_node d (TextNode a) (TextNode b) = TextNode b"
| "patch_node d (TextNode a) (ElementNode j tag' cs' ats' ks') = ElementNode j tag' cs' ats' ks'"
| "patch_node d (ElementNode i tag cs ats ks) (TextNode b) = TextNode b"
| "patch_children d [] ts = ts"
| "patch_children d (l # ls) [] = []"
| "patch_children d (l # ls) (t # ts) = patch_node d l t # patch_children d ls ts"

text \<open>
  The node a path of child positions leads to, from a list of sibling nodes, and the
  identities of the elements of a tree.
\<close>

fun node_at :: "nat list \<Rightarrow> node list \<Rightarrow> node option" where
  "node_at [] ns = None"
| "node_at (n # p) ns =
     (if n < length ns
      then (if p = [] then Some (ns ! n)
            else (case ns ! n of
                    ElementNode i tag cs ats ks \<Rightarrow> node_at p ks
                  | TextNode a \<Rightarrow> None))
      else None)"

fun node_ids :: "node \<Rightarrow> nat set" where
  "node_ids (TextNode a) = {}"
| "node_ids (ElementNode i tag cs ats ks) = insert i (\<Union> (node_ids ` set ks))"

section \<open>Auxiliary notions for the proofs\<close>

text \<open>
  Events other than a new call of \<^verbatim>\<open>diff\<close>, and the markup of the successful responses
  among a sequence of events, in order; the elements \<^verbatim>\<open>modifyDelayed\<close> schedules under a
  type; the entries it is shown to build for them, in closed form; and the loop invariant
  that links the two maps of \<^verbatim>\<open>modifyDelayed\<close> to the elements seen so far.
\<close>

fun is_navigate :: "nav_event \<Rightarrow> bool" where
  "is_navigate (Navigate url push_result) = True"
| "is_navigate (Response url result) = False"
| "is_navigate (PatchDone url result) = False"

fun response_markup :: "nav_event list \<Rightarrow> string list" where
  "response_markup [] = []"
| "response_markup (Response url (Inr html) # es) = html # response_markup es"
| "response_markup (e # es) = response_markup es"

definition wanted :: "string \<Rightarrow> element \<Rightarrow> bool" where
  "wanted ty e = (\<not> contains ''mounted'' e \<and> mountable_type e = ty)"

definition staggered :: "int \<Rightarrow> element list \<Rightarrow> mutation list" where
  "staggered start es =
     map (\<lambda>(k, e). \<lparr>mut_element = eid e,
                     mut_time = min (start + delay * int k) (start + maxDelay)\<rparr>)
       (enumerate 0 es)"

definition sched_inv :: "int \<Rightarrow> element list \<Rightarrow> schedule \<Rightarrow> bool" where
  "sched_inv start xs st =
     (\<forall>ty. (filter (wanted ty) xs = [] \<longrightarrow>
             mountableTypes st ty = None \<and> map_of (mountableTypeMutations st) ty = None) \<and>
           (filter (wanted ty) xs \<noteq> [] \<longrightarrow>
             mountableTypes st ty
               = Some (start + delay * int (length (filter (wanted ty) xs) - 1)) \<and>
             map_of (mountableTypeMutations st) ty
               = Some (staggered start (filter (wanted ty) xs))))"

text \<open>
  The life of the visibility observer as a sequence of events, each run on its own by the
  event loop: a call of \<^verbatim>\<open>observe\<close>, a call of the observer's callback by the browser with
  a list of entries, and a call of \<^verbatim>\<open>disconnect\<close>; after a throw the state stays as it was
  at the throw. An element is resolvable when its callback returns: an image with a
  \<^verbatim>\<open>data-src\<close>, or an inline frame. A sequence is well delivered when the browser calls the
  callback only where intersection observation is supported, with entries for distinct
  targets that it observes at that moment; the element of identity \<open>i\<close> resolves in a
  sequence when every entry delivered for it finds it resolvable. \<open>observes_of\<close> counts the
  calls of \<^verbatim>\<open>observe\<close> for an element, and \<open>pending\<close> the invocations of its callback so
  far, plus one while it is observed.
\<close>

datatype lazy_event = Observe element | Entries "(element \<times> bool) list" | Disconnect

fun lazy_step :: "lazy_event \<Rightarrow> lazy \<Rightarrow> lazy" where
  "lazy_step (Observe e) st = snd (observe e st)"
| "lazy_step (Entries entries) st = snd (visibility_callback entries st)"
| "lazy_step Disconnect st = disconnect st"

fun lazy_run :: "lazy_event list \<Rightarrow> lazy \<Rightarrow> lazy" where
  "lazy_run [] st = st"
| "lazy_run (ev # evs) st = lazy_run evs (lazy_step ev st)"

definition resolvable :: "element \<Rightarrow> bool" where
  "resolvable e =
     ((tagName e = ''IMG'' \<and> data ''src'' e \<noteq> None) \<or> tagName e = ''IFRAME'')"

fun well_delivered :: "lazy_event list \<Rightarrow> lazy \<Rightarrow> bool" where
  "well_delivered [] st = True"
| "well_delivered (Entries entries # evs) st =
     (supported st
      \<and> distinct (map (eid \<circ> fst) entries)
      \<and> set (map (eid \<circ> fst) entries) \<subseteq> set (observed st)
      \<and> well_delivered evs (lazy_step (Entries entries) st))"
| "well_delivered (Observe e # evs) st = well_delivered evs (lazy_step (Observe e) st)"
| "well_delivered (Disconnect # evs) st = well_delivered evs (lazy_step Disconnect st)"

fun resolves_in :: "nat \<Rightarrow> lazy_event list \<Rightarrow> bool" where
  "resolves_in i [] = True"
| "resolves_in i (Entries entries # evs) =
     (list_all (\<lambda>(target, isIntersecting). eid target = i \<longrightarrow> resolvable target) entries
      \<and> resolves_in i evs)"
| "resolves_in i (Observe e # evs) = resolves_in i evs"
| "resolves_in i (Disconnect # evs) = resolves_in i evs"

fun observes_of :: "nat \<Rightarrow> lazy_event list \<Rightarrow> nat" where
  "observes_of i [] = 0"
| "observes_of i (Observe e # evs) = (if eid e = i then Suc (observes_of i evs) else observes_of i evs)"
| "observes_of i (ev # evs) = observes_of i evs"

definition pending :: "nat \<Rightarrow> lazy \<Rightarrow> nat" where
  "pending e st = count_list (invoked st) e + (if e \<in> set (observed st) then 1 else 0)"

text \<open>
  For action binding: an element declares the pair \<open>(t, n)\<close> when both \<^verbatim>\<open>data-trigger\<close> and
  \<^verbatim>\<open>data-action\<close> are present and not empty, and the pair is recorded on it when its
  \<^verbatim>\<open>"action assigned"\<close> record holds that trigger and action. It is in step when its
  listeners are exactly the one its record names (none without a record), and it has at
  most one binding when its listeners are that one or none. \<open>warning_for\<close> is the message
  the pass shows for an action name that is not defined.
\<close>

definition declares :: "element \<Rightarrow> string \<Rightarrow> string \<Rightarrow> bool" where
  "declares e t n = (data ''trigger'' e = Some t \<and> data ''action'' e = Some n \<and> t \<noteq> [] \<and> n \<noteq> [])"

definition recorded :: "element \<Rightarrow> string \<Rightarrow> string \<Rightarrow> bool" where
  "recorded e t n =
     (case action_assigned e of None \<Rightarrow> False | Some r \<Rightarrow> a_trigger r = t \<and> a_action r = n)"

definition in_sync :: "element \<Rightarrow> bool" where
  "in_sync e =
     (case action_assigned e of
        None \<Rightarrow> listeners e = []
      | Some r \<Rightarrow> listeners e = [(a_trigger r, a_handler r)])"

definition at_most_one :: "element \<Rightarrow> bool" where
  "at_most_one e =
     (case action_assigned e of
        None \<Rightarrow> listeners e = []
      | Some r \<Rightarrow> listeners e = [] \<or> listeners e = [(a_trigger r, a_handler r)])"

definition warning_for :: "string \<Rightarrow> string" where
  "warning_for n = ''Action '' @ [CHR 0x27] @ n @ [CHR 0x27] @ '' has not been defined''"

section \<open>Navigation: which responses are applied\<close>

lemma loading_fields:
  "isLoading (loading b s) = b"
  "currentPath (loading b s) = currentPath s"
  "diffCompletedForCurrentPath (loading b s) = diffCompletedForCurrentPath s"
  "history (loading b s) = history s"
  "patched (loading b s) = patched s"
  "fetched (loading b s) = fetched s"
  by (simp_all add: loading_def)

text \<open>
  Once the flag \<^verbatim>\<open>diffCompletedForCurrentPath\<close> is set, a resumption of any call of \<^verbatim>\<open>diff\<close>
  leaves the flag set and patches nothing. While it is clear, a resumption other than a
  successful response for the current path leaves it clear and leaves the current path; the
  successful responses among them are patched in, in order.
\<close>

lemma nav_step_completed_keeps:
  "diffCompletedForCurrentPath s \<Longrightarrow> \<not> is_navigate e \<Longrightarrow>
     diffCompletedForCurrentPath (snd (nav_step e s)) \<and> patched (snd (nav_step e s)) = patched s"
  by (cases e)
     (auto simp: diff_response_def diff_patched_def loading_fields emit_def console_error_def
           split: sum.splits option.splits)

lemma run_completed_keeps:
  "diffCompletedForCurrentPath s \<Longrightarrow> \<forall>e\<in>set es. \<not> is_navigate e \<Longrightarrow>
     patched (run es s) = patched s"
proof (induction es arbitrary: s)
  case Nil
  then show ?case by simp
next
  case (Cons e es)
  then show ?case using nav_step_completed_keeps[of s e] by simp
qed

lemma run_append: "run (xs @ ys) s = run ys (run xs s)"
  by (induction xs arbitrary: s) simp_all

lemma nav_step_before:
  assumes "\<not> diffCompletedForCurrentPath s" "\<not> is_navigate e"
    and "\<forall>h. e \<noteq> Response (currentPath s) (Inr h)"
  shows "\<not> diffCompletedForCurrentPath (snd (nav_step e s))
       \<and> currentPath (snd (nav_step e s)) = currentPath s
       \<and> patched (snd (nav_step e s)) = patched s @ response_markup [e]"
proof (cases e)
  case (Navigate url p)
  with assms show ?thesis by simp
next
  case (Response url result)
  show ?thesis
  proof (cases result)
    case (Inl err)
    with Response assms show ?thesis
      by (simp add: diff_response_def loading_fields console_error_def)
  next
    case (Inr html)
    with Response assms have "url \<noteq> currentPath s" by auto
    with Response Inr assms show ?thesis
      by (simp add: diff_response_def Diff_innerHTML_def)
  qed
next
  case (PatchDone url result)
  with assms show ?thesis
    by (simp add: diff_patched_def loading_fields emit_def console_error_def split: option.splits)
qed

lemma response_markup_Cons: "response_markup (e # es) = response_markup [e] @ response_markup es"
proof (cases e)
  case (Navigate url p)
  then show ?thesis by simp
next
  case (Response url result)
  then show ?thesis by (cases result) simp_all
next
  case (PatchDone url result)
  then show ?thesis by simp
qed

lemma run_before:
  assumes "\<not> diffCompletedForCurrentPath s"
    and "\<forall>e\<in>set es. \<not> is_navigate e \<and> (\<forall>h. e \<noteq> Response (currentPath s) (Inr h))"
  shows "\<not> diffCompletedForCurrentPath (run es s)
       \<and> currentPath (run es s) = currentPath s
       \<and> patched (run es s) = patched s @ response_markup es"
  using assms
proof (induction es arbitrary: s)
  case Nil
  then show ?case by simp
next
  case (Cons e es)
  from Cons.prems have e: "\<not> is_navigate e" "\<forall>h. e \<noteq> Response (currentPath s) (Inr h)" by simp_all
  note st = nav_step_before[OF Cons.prems(1) e]
  have "\<forall>x\<in>set es. \<not> is_navigate x \<and> (\<forall>h. x \<noteq> Response (currentPath (snd (nav_step e s))) (Inr h))"
    using Cons.prems(2) st by simp
  from Cons.IH[OF _ this] st
  show ?case using response_markup_Cons[of e es] by simp
qed

text \<open>
  Claim C1 as the spec states it fails: the response of a superseded navigation that arrives
  while the newer navigation is still in flight is patched into the container. After
  \<^verbatim>\<open>diff("/anime/1")\<close> and \<^verbatim>\<open>diff("/anime/2")\<close> from the page \<^verbatim>\<open>/\<close>, the current path is not
  \<^verbatim>\<open>/anime/1\<close> and nothing has been patched; the response for \<^verbatim>\<open>/anime/1\<close> then arrives and
  its markup is handed to \<^verbatim>\<open>Diff.innerHTML\<close>.
\<close>

theorem stale_response_is_applied:
  "currentPath (run [Navigate ''/anime/1'' None, Navigate ''/anime/2'' None] (idle_app ''/''))
     \<noteq> ''/anime/1''
   \<and> patched (run [Navigate ''/anime/1'' None, Navigate ''/anime/2'' None] (idle_app ''/'')) = []
   \<and> patched (snd (diff_response ''/anime/1'' (Inr ''one'')
        (run [Navigate ''/anime/1'' None, Navigate ''/anime/2'' None] (idle_app ''/'')))) = [''one'']"
  by (simp add: diff_call_def diff_response_def loading_def fetch_def
      Diff_innerHTML_def Let_def idle_app_def)

text \<open>
  Claim C1, amended. A fetched response is applied to the content subtree, whole, exactly
  when \<^verbatim>\<open>diffCompletedForCurrentPath\<close> is false at the time it is processed, whatever its
  path; the flag is set when the path of the response equals \<^verbatim>\<open>currentPath\<close>. So the response
  whose path equals \<^verbatim>\<open>currentPath\<close> is the last one applied: after it, every resumption of a
  call of \<^verbatim>\<open>diff\<close> is discarded without patching anything, until \<^verbatim>\<open>diff\<close> is called again.
\<close>

theorem response_applied_unless_completed:
  "patched (snd (diff_response url (Inr html) s))
     = (if diffCompletedForCurrentPath s then patched s else patched s @ [html])
   \<and> diffCompletedForCurrentPath (snd (diff_response url (Inr html) s))
     = (diffCompletedForCurrentPath s \<or> currentPath s = url)
   \<and> (currentPath s = url \<and> (\<forall>e\<in>set es. \<not> is_navigate e) \<longrightarrow>
        patched (run es (snd (diff_response url (Inr html) s)))
          = patched (snd (diff_response url (Inr html) s)))"
proof (intro conjI impI)
  show "patched (snd (diff_response url (Inr html) s))
     = (if diffCompletedForCurrentPath s then patched s else patched s @ [html])"
    by (simp add: diff_response_def Diff_innerHTML_def loading_fields)
  show c: "diffCompletedForCurrentPath (snd (diff_response url (Inr html) s))
     = (diffCompletedForCurrentPath s \<or> currentPath s = url)"
    by (simp add: diff_response_def Diff_innerHTML_def loading_fields)
  assume a: "currentPath s = url \<and> (\<forall>e\<in>set es. \<not> is_navigate e)"
  then have "diffCompletedForCurrentPath (snd (diff_response url (Inr html) s))"
    using c by simp
  then show "patched (run es (snd (diff_response url (Inr html) s)))
          = patched (snd (diff_response url (Inr html) s))"
    using a run_completed_keeps by blast
qed

theorem response_applied_unless_completed_witness:
  "currentPath (snd (diff_call ''/anime/2'' None (idle_app ''/''))) = ''/anime/2''
   \<and> \<not> is_navigate (Response ''/anime/1'' (Inr ''one''))
   \<and> patched (run [Response ''/anime/1'' (Inr ''one'')]
        (snd (diff_response ''/anime/2'' (Inr ''two'')
           (snd (diff_call ''/anime/2'' None (idle_app ''/''))))))
       = [''two'']"
  using response_applied_unless_completed
    [of "''/anime/2''" "''two''" "snd (diff_call ''/anime/2'' None (idle_app ''/''))"
        "[Response ''/anime/1'' (Inr ''one'')]"]
  by (simp add: diff_call_def diff_response_def loading_def fetch_def
      Diff_innerHTML_def Let_def idle_app_def)

text \<open>
  Claim C2 as the spec states it fails when \<^verbatim>\<open>history.pushState\<close> throws for the second
  path. \<^verbatim>\<open>diff("/anime/1")\<close> is in flight when \<^verbatim>\<open>diff("https://example.org/x")\<close> is called:
  the request for the second path is started, \<^verbatim>\<open>history.pushState\<close> throws, and the second
  call ends without touching \<^verbatim>\<open>currentPath\<close>; nothing waits for its response. The response
  for \<^verbatim>\<open>/anime/1\<close> then arrives and is applied: the content is that of the first
  navigation.
\<close>

theorem refused_navigation_loses:
  "patched (run [Navigate ''/anime/1'' None,
                 Navigate ''https://example.org/x'' (Some ''SecurityError''),
                 Response ''/anime/1'' (Inr ''one'')] (idle_app ''/'')) = [''one'']
   \<and> currentPath (run [Navigate ''/anime/1'' None,
                 Navigate ''https://example.org/x'' (Some ''SecurityError''),
                 Response ''/anime/1'' (Inr ''one'')] (idle_app ''/'')) = ''/anime/1''
   \<and> map req_url (fetched (run [Navigate ''/anime/1'' None,
                 Navigate ''https://example.org/x'' (Some ''SecurityError''),
                 Response ''/anime/1'' (Inr ''one'')] (idle_app ''/'')))
       = [''/_/anime/1'', ''/_https://example.org/x'']"
  by (simp add: diff_call_def diff_response_def loading_def fetch_def console_error_def
      Diff_innerHTML_def Let_def idle_app_def)

text \<open>
  Claim C2, amended. \<^verbatim>\<open>diff(a)\<close> is called, then \<^verbatim>\<open>diff(b)\<close> while the call for \<open>a\<close> is in
  flight, and \<^verbatim>\<open>history.pushState\<close> accepts both paths. The call for \<open>b\<close> resumes with the
  markup \<open>hb\<close>; before it and after it come resumptions of other calls in any order and with
  any outcome (the call for \<open>a\<close> may resume first or second, whichever request was answered
  first), but no new call of \<^verbatim>\<open>diff\<close> and, before it, no other successful response for
  \<open>b\<close>. Then the markup patched into the content subtree is that of the successful responses
  resumed before \<open>b\<close>'s, in order, followed by \<open>hb\<close>: the last markup patched, which is what
  the content subtree shows at the end, is \<open>b\<close>'s, and the markup of \<open>a\<close> is patched in only
  when the call for \<open>a\<close> resumes first.
\<close>

theorem later_navigation_wins:
  assumes "a \<noteq> currentPath s" and "b \<noteq> a"
    and "\<forall>e\<in>set before. \<not> is_navigate e \<and> (\<forall>h. e \<noteq> Response b (Inr h))"
    and "\<forall>e\<in>set after. \<not> is_navigate e"
  shows "patched (run ([Navigate a None, Navigate b None] @ before @ [Response b (Inr hb)] @ after) s)
           = patched s @ response_markup before @ [hb]
       \<and> last (patched (run ([Navigate a None, Navigate b None] @ before @ [Response b (Inr hb)] @ after) s))
           = hb"
proof -
  let ?s2 = "run [Navigate a None, Navigate b None] s"
  have s2: "\<not> diffCompletedForCurrentPath ?s2" "currentPath ?s2 = b" "patched ?s2 = patched s"
    using assms(1,2)
    by (simp_all add: diff_call_def Let_def loading_def fetch_def)
  have "\<forall>e\<in>set before. \<not> is_navigate e \<and> (\<forall>h. e \<noteq> Response (currentPath ?s2) (Inr h))"
    using assms(3) s2(2) by simp
  from run_before[OF s2(1) this]
  have s3: "\<not> diffCompletedForCurrentPath (run before ?s2)"
    "currentPath (run before ?s2) = b"
    "patched (run before ?s2) = patched s @ response_markup before"
    using s2 by simp_all
  let ?s4 = "snd (diff_response b (Inr hb) (run before ?s2))"
  have s4: "diffCompletedForCurrentPath ?s4" "patched ?s4 = patched s @ response_markup before @ [hb]"
    using s3 by (simp_all add: diff_response_def Diff_innerHTML_def)
  have "patched (run after ?s4) = patched ?s4"
    using run_completed_keeps[OF s4(1) assms(4)] .
  moreover have "run ([Navigate a None, Navigate b None] @ before @ [Response b (Inr hb)] @ after) s
      = run after ?s4"
    by (simp only: run_append) simp
  ultimately have "patched (run ([Navigate a None, Navigate b None] @ before @ [Response b (Inr hb)] @ after) s)
      = patched s @ response_markup before @ [hb]"
    using s4(2) by simp
  then show ?thesis by simp
qed

theorem later_navigation_wins_witness:
  "''/anime/1'' \<noteq> currentPath (idle_app ''/'') \<and> ''/anime/2'' \<noteq> ''/anime/1''
   \<and> \<not> is_navigate (Response ''/anime/1'' (Inr ''one''))
   \<and> \<not> is_navigate (PatchDone ''/anime/1'' None)
   \<and> patched (run ([Navigate ''/anime/1'' None, Navigate ''/anime/2'' None]
                   @ [Response ''/anime/1'' (Inr ''one'')]
                   @ [Response ''/anime/2'' (Inr ''two'')]
                   @ [PatchDone ''/anime/1'' None, PatchDone ''/anime/2'' None]) (idle_app ''/''))
       = [''one'', ''two'']
   \<and> patched (run ([Navigate ''/anime/1'' None, Navigate ''/anime/2'' None]
                   @ []
                   @ [Response ''/anime/2'' (Inr ''two'')]
                   @ [PatchDone ''/anime/2'' None, Response ''/anime/1'' (Inr ''one'')]) (idle_app ''/''))
       = [''two'']"
  using later_navigation_wins[of "''/anime/1''" "idle_app ''/''" "''/anime/2''"
      "[Response ''/anime/1'' (Inr ''one'')]"
      "[PatchDone ''/anime/1'' None, PatchDone ''/anime/2'' None]" "''two''"]
    later_navigation_wins[of "''/anime/1''" "idle_app ''/''" "''/anime/2''"
      "[]" "[PatchDone ''/anime/2'' None, Response ''/anime/1'' (Inr ''one'')]" "''two''"]
  by (simp add: idle_app_def)

section \<open>Navigation: the loading flag and failures\<close>

text \<open>
  Claim C3. A call \<^verbatim>\<open>diff(url)\<close> with \<open>url\<close> different from \<^verbatim>\<open>currentPath\<close> does not return null,
  and when it has run to its end the loading flag is false, whatever \<^verbatim>\<open>history.pushState\<close>
  does and whatever the outcome of the request and of the patch. The same holds among
  overlapping calls: any step in which a call ends with an outcome other than the early null
  (push refused, patch applied, response discarded, fetch failed, patch failed) leaves the
  loading flag false.
\<close>

theorem diff_clears_loading:
  "(url \<noteq> currentPath s \<longrightarrow>
      fst (diff url push_result fetch_result patch_result s) \<noteq> ReturnedNull
      \<and> \<not> isLoading (snd (diff url push_result fetch_result patch_result s)))
   \<and> (nav_step ev t = (Some out, t') \<and> out \<noteq> ReturnedNull \<longrightarrow> \<not> isLoading t')"
proof (intro conjI impI)
  assume "url \<noteq> currentPath s"
  then show "fst (diff url push_result fetch_result patch_result s) \<noteq> ReturnedNull"
    by (auto simp: diff_def diff_call_def diff_response_def diff_patched_def Let_def
        split: sum.splits option.splits)
next
  assume "url \<noteq> currentPath s"
  then show "\<not> isLoading (snd (diff url push_result fetch_result patch_result s))"
    by (auto simp: diff_def diff_call_def diff_response_def diff_patched_def Let_def loading_fields
        split: sum.splits option.splits)
next
  assume "nav_step ev t = (Some out, t') \<and> out \<noteq> ReturnedNull"
  then show "\<not> isLoading t'"
    by (cases ev)
       (auto simp: diff_call_def diff_response_def diff_patched_def Let_def loading_fields
        split: sum.splits option.splits if_splits)
qed

theorem diff_clears_loading_witness:
  "''/anime/1'' \<noteq> currentPath (idle_app ''/'')
   \<and> fst (diff ''/anime/1'' None (Inl ''offline'') None (idle_app ''/'')) = FetchFailed
   \<and> \<not> isLoading (snd (diff ''/anime/1'' None (Inl ''offline'') None (idle_app ''/'')))
   \<and> fst (diff ''/anime/1'' None (Inr ''one'') None (idle_app ''/'')) = PatchApplied
   \<and> \<not> isLoading (snd (diff ''/anime/1'' None (Inr ''one'') None (idle_app ''/'')))
   \<and> fst (diff ''https://example.org/x'' (Some ''SecurityError'') (Inr ''x'') None (idle_app ''/''))
       = PushFailed
   \<and> \<not> isLoading (snd (diff ''https://example.org/x'' (Some ''SecurityError'') (Inr ''x'') None
                          (idle_app ''/'')))
   \<and> isLoading (run [Navigate ''/anime/1'' None, Navigate ''/anime/2'' None,
                     Response ''/anime/2'' (Inr ''two'')] (idle_app ''/''))
   \<and> fst (nav_step (Response ''/anime/1'' (Inr ''one''))
        (run [Navigate ''/anime/1'' None, Navigate ''/anime/2'' None,
              Response ''/anime/2'' (Inr ''two'')] (idle_app ''/''))) = Some Discarded
   \<and> \<not> isLoading (snd (nav_step (Response ''/anime/1'' (Inr ''one''))
        (run [Navigate ''/anime/1'' None, Navigate ''/anime/2'' None,
              Response ''/anime/2'' (Inr ''two'')] (idle_app ''/''))))"
  using diff_clears_loading[where url = "''/anime/1''" and s = "idle_app ''/''"
      and push_result = None
      and fetch_result = "Inl ''offline''" and patch_result = None
      and ev = "Response ''/anime/1'' (Inr ''one'')"
      and t = "run [Navigate ''/anime/1'' None, Navigate ''/anime/2'' None,
                    Response ''/anime/2'' (Inr ''two'')] (idle_app ''/'')"
      and out = Discarded
      and t' = "snd (nav_step (Response ''/anime/1'' (Inr ''one''))
        (run [Navigate ''/anime/1'' None, Navigate ''/anime/2'' None,
              Response ''/anime/2'' (Inr ''two'')] (idle_app ''/'')))"]
    diff_clears_loading[where url = "''/anime/1''" and s = "idle_app ''/''"
      and push_result = None
      and fetch_result = "Inr ''one''" and patch_result = None]
    diff_clears_loading[where url = "''https://example.org/x''" and s = "idle_app ''/''"
      and push_result = "Some ''SecurityError''"
      and fetch_result = "Inr ''x''" and patch_result = None]
  by (simp add: diff_def diff_call_def diff_response_def diff_patched_def loading_def fetch_def
      emit_def console_error_def Diff_innerHTML_def Let_def idle_app_def)

text \<open>
  Claim C10 as the spec states it fails for a path \<^verbatim>\<open>history.pushState\<close> refuses: the call
  \<^verbatim>\<open>diff("https://example.org/x")\<close> from the page \<^verbatim>\<open>/\<close> ends in the \<^verbatim>\<open>catch\<close> block with
  no history entry pushed and \<^verbatim>\<open>currentPath\<close> still \<^verbatim>\<open>/\<close>.
\<close>

theorem refused_push_changes_nothing:
  "''https://example.org/x'' \<noteq> currentPath (idle_app ''/'')
   \<and> fst (diff_call ''https://example.org/x'' (Some ''SecurityError'') (idle_app ''/''))
       = Some PushFailed
   \<and> history (snd (diff_call ''https://example.org/x'' (Some ''SecurityError'') (idle_app ''/''))) = []
   \<and> currentPath (snd (diff_call ''https://example.org/x'' (Some ''SecurityError'') (idle_app ''/'')))
       = ''/''"
  by (simp add: diff_call_def loading_def fetch_def console_error_def Let_def idle_app_def)

text \<open>
  Claim C10, amended. A call \<^verbatim>\<open>diff(url)\<close> with \<open>url\<close> different from \<^verbatim>\<open>currentPath\<close> for which
  \<^verbatim>\<open>history.pushState\<close> returns pushes the history entry, sets \<^verbatim>\<open>currentPath\<close> to \<open>url\<close>,
  clears \<^verbatim>\<open>diffCompletedForCurrentPath\<close> and sets the loading flag before it waits for the
  response; when the fetch then fails with nothing in between, the state is that state
  with the error logged and the loading flag cleared, so \<^verbatim>\<open>currentPath\<close> is still \<open>url\<close>, the
  history entry is still there, \<^verbatim>\<open>diffCompletedForCurrentPath\<close> is still false and nothing
  was patched. In any state, also among overlapping calls, the failure of a fetch only logs
  the error and clears the loading flag: \<^verbatim>\<open>currentPath\<close>, the history, the flag
  \<^verbatim>\<open>diffCompletedForCurrentPath\<close> and the content are as they were just before. When
  \<^verbatim>\<open>history.pushState\<close> throws, the call ends at once: nothing is pushed, \<^verbatim>\<open>currentPath\<close> and
  \<^verbatim>\<open>diffCompletedForCurrentPath\<close> are unchanged, and the loading flag is cleared.
\<close>

theorem failed_navigation_keeps_target:
  "(url \<noteq> currentPath s \<longrightarrow>
      fst (diff_call url None s) = None
      \<and> history (snd (diff_call url None s)) = history s @ [url]
      \<and> currentPath (snd (diff_call url None s)) = url
      \<and> \<not> diffCompletedForCurrentPath (snd (diff_call url None s))
      \<and> isLoading (snd (diff_call url None s))
      \<and> diff url None (Inl err) patch_result s
           = (FetchFailed, loading False (console_error err (snd (diff_call url None s))))
      \<and> currentPath (snd (diff url None (Inl err) patch_result s)) = url
      \<and> \<not> diffCompletedForCurrentPath (snd (diff url None (Inl err) patch_result s))
      \<and> history (snd (diff url None (Inl err) patch_result s)) = history s @ [url]
      \<and> patched (snd (diff url None (Inl err) patch_result s)) = patched s
      \<and> \<not> isLoading (snd (diff url None (Inl err) patch_result s)))
   \<and> diff_response url (Inl err) t = (Some FetchFailed, loading False (console_error err t))
   \<and> currentPath (snd (diff_response url (Inl err) t)) = currentPath t
   \<and> diffCompletedForCurrentPath (snd (diff_response url (Inl err) t))
       = diffCompletedForCurrentPath t
   \<and> history (snd (diff_response url (Inl err) t)) = history t
   \<and> patched (snd (diff_response url (Inl err) t)) = patched t
   \<and> \<not> isLoading (snd (diff_response url (Inl err) t))
   \<and> (url \<noteq> currentPath s \<longrightarrow>
        fst (diff_call url (Some thrown) s) = Some PushFailed
        \<and> currentPath (snd (diff_call url (Some thrown) s)) = currentPath s
        \<and> history (snd (diff_call url (Some thrown) s)) = history s
        \<and> diffCompletedForCurrentPath (snd (diff_call url (Some thrown) s))
            = diffCompletedForCurrentPath s
        \<and> \<not> isLoading (snd (diff_call url (Some thrown) s)))"
  by (simp add: diff_def diff_call_def diff_response_def Let_def loading_def fetch_def
      console_error_def)

theorem failed_navigation_keeps_target_witness:
  "''/anime/1'' \<noteq> currentPath (idle_app ''/'')
   \<and> currentPath (snd (diff ''/anime/1'' None (Inl ''offline'') None (idle_app ''/''))) = ''/anime/1''
   \<and> history (snd (diff ''/anime/1'' None (Inl ''offline'') None (idle_app ''/''))) = [''/anime/1'']
   \<and> \<not> diffCompletedForCurrentPath (snd (diff ''/anime/1'' None (Inl ''offline'') None (idle_app ''/'')))
   \<and> \<not> isLoading (snd (diff ''/anime/1'' None (Inl ''offline'') None (idle_app ''/'')))
   \<and> currentPath (snd (diff_call ''/anime/1'' (Some ''SecurityError'') (idle_app ''/''))) = ''/''"
  using failed_navigation_keeps_target[of "''/anime/1''" "idle_app ''/''" "''offline''" None
      "idle_app ''/''" "''SecurityError''"]
  by (simp add: idle_app_def diff_def diff_call_def diff_response_def Let_def loading_def fetch_def
      console_error_def)

section \<open>\<^verbatim>\<open>post\<close> and \<^verbatim>\<open>reloadContent\<close>\<close>

text \<open>
  Claim C4. \<^verbatim>\<open>post(url, body)\<close> called while the loading flag is set returns a promise
  resolved to null and changes nothing: no request is issued. Called while the flag is clear
  it sets the flag and issues one POST request to \<open>url\<close> whose body is \<open>body\<close> itself when it
  is a string and its JSON serialisation otherwise. When the response arrives with status
  200 the promise resolves to the response; with any other status it rejects with the text
  of the response body; and whatever the outcome of the fetch, the flag is clear afterwards.
\<close>

theorem post_contract:
  "(isLoading s \<longrightarrow> post_call stringify url body s = (Some (Resolved None), s))
   \<and> (\<not> isLoading s \<longrightarrow>
        fst (post_call stringify url body s) = None
        \<and> isLoading (snd (post_call stringify url body s))
        \<and> fetched (snd (post_call stringify url body s))
            = fetched s @
              [\<lparr>req_method = ''POST'', req_url = url, req_headers = [],
                req_body = Some (case body of JsString b \<Rightarrow> b | JsOther v \<Rightarrow> stringify v),
                req_credentials = ''same-origin''\<rparr>])
   \<and> (status r = 200 \<longrightarrow> fst (post_response (Inr r) t) = Resolved (Some r))
   \<and> (status r \<noteq> 200 \<and> body_text r = Inr err \<longrightarrow> fst (post_response (Inr r) t) = Rejected err)
   \<and> \<not> isLoading (snd (post_response result t))"
proof (intro conjI impI)
  assume "isLoading s"
  then show "post_call stringify url body s = (Some (Resolved None), s)"
    by (simp add: post_call_def)
next
  assume "\<not> isLoading s"
  then show "fst (post_call stringify url body s) = None"
    by (simp add: post_call_def Let_def)
next
  assume "\<not> isLoading s"
  then show "isLoading (snd (post_call stringify url body s))"
    by (simp add: post_call_def Let_def fetch_def loading_def)
next
  assume "\<not> isLoading s"
  then show "fetched (snd (post_call stringify url body s))
            = fetched s @
              [\<lparr>req_method = ''POST'', req_url = url, req_headers = [],
                req_body = Some (case body of JsString b \<Rightarrow> b | JsOther v \<Rightarrow> stringify v),
                req_credentials = ''same-origin''\<rparr>]"
    by (simp add: post_call_def Let_def fetch_def loading_def)
next
  assume "status r = 200"
  then show "fst (post_response (Inr r) t) = Resolved (Some r)"
    by (simp add: post_response_def Let_def)
next
  assume "status r \<noteq> 200 \<and> body_text r = Inr err"
  then show "fst (post_response (Inr r) t) = Rejected err"
    by (simp add: post_response_def Let_def)
next
  show "\<not> isLoading (snd (post_response result t))"
    by (simp add: post_response_def Let_def loading_def split: sum.splits)
qed

theorem post_contract_witness:
  "isLoading (loading True (idle_app ''/''))
   \<and> post_call (\<lambda>n::nat. ''{}'') ''/api/x'' (JsOther 0) (loading True (idle_app ''/''))
       = (Some (Resolved None), loading True (idle_app ''/''))
   \<and> \<not> isLoading (idle_app ''/'')
   \<and> map req_body (fetched (snd (post_call (\<lambda>n::nat. ''{}'') ''/api/x'' (JsOther 0) (idle_app ''/''))))
       = [Some ''{}'']
   \<and> status \<lparr>status = 200, body_text = Inr ''ok''\<rparr> = 200
   \<and> fst (post_response (Inr \<lparr>status = 200, body_text = Inr ''ok''\<rparr>) (loading True (idle_app ''/'')))
       = Resolved (Some \<lparr>status = 200, body_text = Inr ''ok''\<rparr>)
   \<and> status \<lparr>status = 403, body_text = Inr ''Not allowed''\<rparr> \<noteq> 200
   \<and> fst (post_response (Inr \<lparr>status = 403, body_text = Inr ''Not allowed''\<rparr>) (loading True (idle_app ''/'')))
       = Rejected ''Not allowed''"
  using post_contract[where s = "loading True (idle_app ''/'')" and stringify = "\<lambda>n::nat. ''{}''"
      and url = "''/api/x''" and body = "JsOther 0"
      and r = "\<lparr>status = 200, body_text = Inr ''ok''\<rparr>" and t = "loading True (idle_app ''/'')"]
    post_contract[where s = "idle_app ''/''" and stringify = "\<lambda>n::nat. ''{}''"
      and url = "''/api/x''" and body = "JsOther 0"
      and r = "\<lparr>status = 403, body_text = Inr ''Not allowed''\<rparr>" and err = "''Not allowed''"
      and t = "loading True (idle_app ''/'')"]
  by (simp add: loading_def idle_app_def)

text \<open>
  Claim C9. \<^verbatim>\<open>reloadContent(cached)\<close> issues one GET request for \<^verbatim>\<open>"/_" + currentPath\<close> that
  carries exactly one header: \<^verbatim>\<open>X-CacheOnly: true\<close> when \<open>cached\<close> is true, and
  \<^verbatim>\<open>X-Reload: true\<close> when it is false (or left out). In particular \<^verbatim>\<open>reloadContent(false)\<close>
  sends \<^verbatim>\<open>X-Reload: true\<close> and \<^verbatim>\<open>reloadContent(true)\<close> sends \<^verbatim>\<open>X-CacheOnly: true\<close>.
\<close>

theorem reloadContent_headers:
  "fetched (snd (reloadContent_call cached s))
     = fetched s @
       [\<lparr>req_method = ''GET'', req_url = ''/_'' @ currentPath s,
         req_headers = [if cached = Some True then (''X-CacheOnly'', ''true'')
                        else (''X-Reload'', ''true'')],
         req_body = None, req_credentials = ''same-origin''\<rparr>]
   \<and> req_headers (last (fetched (snd (reloadContent_call (Some False) s)))) = [(''X-Reload'', ''true'')]
   \<and> req_headers (last (fetched (snd (reloadContent_call (Some True) s)))) = [(''X-CacheOnly'', ''true'')]"
  by (simp add: reloadContent_call_def Let_def fetch_def)

section \<open>Staggered mounting\<close>

text \<open>
  Pushing an entry under a type changes the array of that type only, and the loop of
  \<^verbatim>\<open>modifyDelayed\<close> keeps its invariant: under each type, the stored time is the start time
  plus one delay per element after the first, and the array holds the closed-form entries.
\<close>

lemma map_of_push_mutation:
  "map_of (push_mutation ty m al) k =
     (if k = ty then map_option (\<lambda>ms. ms @ [m]) (map_of al ty) else map_of al k)"
  by (induction al) auto

lemma staggered_snoc:
  "staggered start (es @ [e]) =
     staggered start es @
       [\<lparr>mut_element = eid e, mut_time = min (start + delay * int (length es)) (start + maxDelay)\<rparr>]"
  by (simp add: staggered_def enumerate_append_eq)

lemma sched_inv_step:
  assumes "sched_inv start xs st"
  shows "sched_inv start (xs @ [e]) (modifyDelayed_step start st e)"
proof (cases "contains ''mounted'' e")
  case True
  then show ?thesis using assms
    by (simp add: sched_inv_def modifyDelayed_step_def wanted_def)
next
  case False
  let ?t = "mountable_type e"
  show ?thesis
    unfolding sched_inv_def
  proof (intro allI)
    fix ty
    show "(filter (wanted ty) (xs @ [e]) = [] \<longrightarrow>
             mountableTypes (modifyDelayed_step start st e) ty = None \<and> map_of (mountableTypeMutations (modifyDelayed_step start st e)) ty = None) \<and>
           (filter (wanted ty) (xs @ [e]) \<noteq> [] \<longrightarrow>
             mountableTypes (modifyDelayed_step start st e) ty = Some (start + delay * int (length (filter (wanted ty) (xs @ [e])) - 1)) \<and>
             map_of (mountableTypeMutations (modifyDelayed_step start st e)) ty = Some (staggered start (filter (wanted ty) (xs @ [e]))))"
    proof (cases "ty = ?t")
      case neq: False
      then have w: "\<not> wanted ty e" by (simp add: wanted_def)
      from assms have a: "(filter (wanted ty) xs = [] \<longrightarrow>
             mountableTypes st ty = None \<and> map_of (mountableTypeMutations st) ty = None) \<and>
           (filter (wanted ty) xs \<noteq> [] \<longrightarrow>
             mountableTypes st ty = Some (start + delay * int (length (filter (wanted ty) xs) - 1)) \<and>
             map_of (mountableTypeMutations st) ty = Some (staggered start (filter (wanted ty) xs)))"
        unfolding sched_inv_def by blast
      have "mountableTypes (modifyDelayed_step start st e) ty = mountableTypes st ty"
        using False neq by (simp add: modifyDelayed_step_def Let_def split: option.splits)
      moreover have "map_of (mountableTypeMutations (modifyDelayed_step start st e)) ty
          = map_of (mountableTypeMutations st) ty"
        using False neq
        by (auto simp: modifyDelayed_step_def Let_def map_of_push_mutation map_add_def
            split: option.splits)
      ultimately show ?thesis using a w by simp
    next
      case eq: True
      then have w: "wanted ty e" using False by (simp add: wanted_def)
      from assms have a: "(filter (wanted ty) xs = [] \<longrightarrow>
             mountableTypes st ty = None \<and> map_of (mountableTypeMutations st) ty = None) \<and>
           (filter (wanted ty) xs \<noteq> [] \<longrightarrow>
             mountableTypes st ty = Some (start + delay * int (length (filter (wanted ty) xs) - 1)) \<and>
             map_of (mountableTypeMutations st) ty = Some (staggered start (filter (wanted ty) xs)))"
        unfolding sched_inv_def by blast
      show ?thesis
      proof (cases "filter (wanted ty) xs = []")
        case True
        with a have n: "mountableTypes st ty = None" "map_of (mountableTypeMutations st) ty = None"
          by simp_all
        show ?thesis using False eq w True n
          by (simp add: modifyDelayed_step_def Let_def map_of_push_mutation staggered_def
              maxDelay_def delay_def map_add_def)
      next
        case ne: False
        with a have n: "mountableTypes st ty = Some (start + delay * int (length (filter (wanted ty) xs) - 1))"
          "map_of (mountableTypeMutations st) ty = Some (staggered start (filter (wanted ty) xs))"
          by simp_all
        from ne have pos: "0 < length (filter (wanted ty) xs)" by simp
        then obtain n where len: "length (filter (wanted ty) xs) = Suc n"
          by (cases "length (filter (wanted ty) xs)") auto
        have ar: "start + delay * int (length (filter (wanted ty) xs) - 1) + delay
            = start + delay * int (length (filter (wanted ty) xs))"
          unfolding len by (simp add: algebra_simps)
        show ?thesis using False eq w ne n ar
          by (simp add: modifyDelayed_step_def Let_def map_of_push_mutation staggered_snoc min_def)
      qed
    qed
  qed
qed

lemma sched_inv_modifyDelayed: "sched_inv start xs (modifyDelayed start xs)"
proof (induction xs rule: rev_induct)
  case Nil
  then show ?case by (simp add: sched_inv_def modifyDelayed_def)
next
  case (snoc x xs)
  then show ?case using sched_inv_step[of start xs "modifyDelayed start xs" x]
    by (simp add: modifyDelayed_def)
qed

lemma mutations_of_modifyDelayed:
  "mutations_of (modifyDelayed start xs) ty = staggered start (filter (wanted ty) xs)"
  using sched_inv_modifyDelayed[of start xs]
  by (cases "filter (wanted ty) xs = []") (auto simp: sched_inv_def mutations_of_def staggered_def)


lemma staggered_length: "length (staggered start es) = length es"
  by (simp add: staggered_def)

lemma staggered_nth:
  "k < length es \<Longrightarrow>
     staggered start es ! k
       = \<lparr>mut_element = eid (es ! k), mut_time = min (start + delay * int k) (start + maxDelay)\<rparr>"
  by (simp add: staggered_def nth_enumerate_eq)

lemma staggered_elements: "map mut_element (staggered start es) = map eid es"
  by (rule nth_equalityI) (simp_all add: staggered_length staggered_nth)

text \<open>
  Claim C6. For the elements passed to \<^verbatim>\<open>modifyDelayed\<close> and any type: the entries scheduled
  under the type are, in order, the elements of that type that do not carry the class
  \<^verbatim>\<open>mounted\<close>; the reveal time of the \<open>k\<close>-th of them (from 0) is the start time plus \<open>k\<close>
  times 18 ms, capped at the start time plus 1000 ms; the first is the start time, and each
  later one is the one before plus 18 ms, capped the same way; so the reveal times never
  decrease and never exceed the start time plus 1000 ms.
\<close>

theorem modifyDelayed_reveal_times:
  "map mut_element (mutations_of (modifyDelayed start elements) ty)
     = map eid (filter (\<lambda>e. \<not> contains ''mounted'' e \<and> mountable_type e = ty) elements)
   \<and> (\<forall>k. k < length (mutations_of (modifyDelayed start elements) ty) \<longrightarrow>
         mut_time (mutations_of (modifyDelayed start elements) ty ! k)
           = min (start + 18 * int k) (start + 1000))
   \<and> (mutations_of (modifyDelayed start elements) ty \<noteq> [] \<longrightarrow>
         mut_time (mutations_of (modifyDelayed start elements) ty ! 0) = start)
   \<and> (\<forall>k. Suc k < length (mutations_of (modifyDelayed start elements) ty) \<longrightarrow>
         mut_time (mutations_of (modifyDelayed start elements) ty ! Suc k)
           = min (mut_time (mutations_of (modifyDelayed start elements) ty ! k) + 18) (start + 1000))
   \<and> sorted (map mut_time (mutations_of (modifyDelayed start elements) ty))
   \<and> (\<forall>m \<in> set (mutations_of (modifyDelayed start elements) ty). mut_time m \<le> start + 1000)"
proof -
  let ?es = "filter (wanted ty) elements"
  let ?ms = "mutations_of (modifyDelayed start elements) ty"
  have ms: "?ms = staggered start ?es" by (rule mutations_of_modifyDelayed)
  have w: "wanted ty = (\<lambda>e. \<not> contains ''mounted'' e \<and> mountable_type e = ty)"
    by (rule ext) (simp add: wanted_def)
  have len: "length ?ms = length ?es" by (simp add: ms staggered_length)
  have time: "mut_time (?ms ! k) = min (start + 18 * int k) (start + 1000)" if "k < length ?ms" for k
    using that len by (simp add: ms staggered_nth delay_def maxDelay_def)
  have c1: "map mut_element ?ms = map eid (filter (\<lambda>e. \<not> contains ''mounted'' e \<and> mountable_type e = ty) elements)"
    using staggered_elements[of start ?es] by (simp add: ms w)
  have c3: "?ms \<noteq> [] \<longrightarrow> mut_time (?ms ! 0) = start"
    using time[of 0] by simp
  have c4: "\<forall>k. Suc k < length ?ms \<longrightarrow>
      mut_time (?ms ! Suc k) = min (mut_time (?ms ! k) + 18) (start + 1000)"
  proof (intro allI impI)
    fix k assume k: "Suc k < length ?ms"
    then have "k < length ?ms" by simp
    with time[of k] time[of "Suc k"] k
    show "mut_time (?ms ! Suc k) = min (mut_time (?ms ! k) + 18) (start + 1000)"
      by (simp add: min_def)
  qed
  have c5: "sorted (map mut_time ?ms)"
  proof (subst sorted_iff_nth_mono, intro allI impI)
    fix i j assume ij: "i \<le> j" and j: "j < length (map mut_time ?ms)"
    then have "i < length ?ms" "j < length ?ms" by simp_all
    with time[of i] time[of j] ij
    show "map mut_time ?ms ! i \<le> map mut_time ?ms ! j" by (simp add: min_def)
  qed
  have c6: "\<forall>m \<in> set ?ms. mut_time m \<le> start + 1000"
  proof
    fix m assume "m \<in> set ?ms"
    then obtain k where "k < length ?ms" "?ms ! k = m" by (auto simp: in_set_conv_nth)
    with time[of k] show "mut_time m \<le> start + 1000" by auto
  qed
  from c1 time c3 c4 c5 c6 show ?thesis by blast
qed

theorem modifyDelayed_reveal_times_witness:
  "57 < length (mutations_of (modifyDelayed 5000
          (map (\<lambda>i. \<lparr>eid = i, tagName = ''DIV'', classList = [''mountable''], dataset = [],
                     listeners = [], onclick = False, action_assigned = None\<rparr>) [0..<58]))
          ''general'')
   \<and> mut_time (mutations_of (modifyDelayed 5000
          (map (\<lambda>i. \<lparr>eid = i, tagName = ''DIV'', classList = [''mountable''], dataset = [],
                     listeners = [], onclick = False, action_assigned = None\<rparr>) [0..<58]))
          ''general'' ! 57) = 6000"
proof -
  let ?ms = "mutations_of (modifyDelayed 5000
          (map (\<lambda>i. \<lparr>eid = i, tagName = ''DIV'', classList = [''mountable''], dataset = [],
                     listeners = [], onclick = False, action_assigned = None\<rparr>) [0..<58]))
          ''general''"
  have len: "57 < length ?ms" by code_simp
  have "\<forall>k. k < length ?ms \<longrightarrow> mut_time (?ms ! k) = min (5000 + 18 * int k) (5000 + 1000)"
    using modifyDelayed_reveal_times[of 5000 "map (\<lambda>i. \<lparr>eid = i, tagName = ''DIV'', classList = [''mountable''], dataset = [],
                     listeners = [], onclick = False, action_assigned = None\<rparr>) [0..<58]" "''general''"]
    by blast
  with len have "mut_time (?ms ! 57) = min (5000 + 18 * int 57) (5000 + 1000)" by blast
  then have "mut_time (?ms ! 57) = 6000" by simp
  with len show ?thesis by blast
qed

text \<open>
  A batch of four: the mounted element is skipped and the element of type \<^verbatim>\<open>header\<close> is
  scheduled under its own type.
\<close>

lemma modifyDelayed_example:
  "mutations_of (modifyDelayed 5000
      [\<lparr>eid = 1, tagName = ''DIV'', classList = [''mountable''], dataset = [],
        listeners = [], onclick = False, action_assigned = None\<rparr>,
       \<lparr>eid = 2, tagName = ''DIV'', classList = [''mountable'', ''mounted''], dataset = [],
        listeners = [], onclick = False, action_assigned = None\<rparr>,
       \<lparr>eid = 3, tagName = ''DIV'', classList = [''mountable''],
        dataset = [(''mountableType'', ''header'')],
        listeners = [], onclick = False, action_assigned = None\<rparr>,
       \<lparr>eid = 4, tagName = ''DIV'', classList = [''mountable''], dataset = [],
        listeners = [], onclick = False, action_assigned = None\<rparr>]) ''general''
     = [\<lparr>mut_element = 1, mut_time = 5000\<rparr>, \<lparr>mut_element = 4, mut_time = 5018\<rparr>]"
  by (simp add: modifyDelayed_def modifyDelayed_step_def mutations_of_def contains_def
      mountable_type_def data_def Let_def maxDelay_def delay_def)

section \<open>Lazy loading\<close>

text \<open>
  What a callback that returns, the observer's callback and the observer operations do to
  the log of invocations and to the watched set, and how \<open>pending\<close> moves along a well
  delivered sequence of events for an element that resolves in it, whatever the callbacks
  of other elements do.
\<close>

lemma became_visible_resolvable:
  "resolvable e \<Longrightarrow> became_visible e st = (None, st\<lparr>invoked := invoked st @ [eid e]\<rparr>)"
  by (auto simp: became_visible_def resolvable_def)

lemma unobserve_fields:
  "supported (unobserve e st) = supported st"
  "invoked (unobserve e st) = invoked st"
  "observed (unobserve e st)
     = (if supported st then removeAll (eid e) (observed st) else observed st)"
  by (simp_all add: unobserve_def)

lemma visibility_callback_resolvable:
  "list_all resolvable (map fst entries) \<Longrightarrow>
     fst (visibility_callback entries st) = None
     \<and> supported (snd (visibility_callback entries st)) = supported st
     \<and> invoked (snd (visibility_callback entries st))
         = invoked st @ map (eid \<circ> fst) (filter snd entries)
     \<and> (supported st \<longrightarrow>
          set (observed (snd (visibility_callback entries st)))
            = set (observed st) - set (map (eid \<circ> fst) (filter snd entries)))"
proof (induction entries arbitrary: st)
  case Nil
  then show ?case by simp
next
  case (Cons x entries)
  obtain t b where x: "x = (t, b)" by (cases x)
  from Cons.prems x have rt: "resolvable t" and rest: "list_all resolvable (map fst entries)"
    by simp_all
  show ?case
  proof (cases b)
    case False
    with Cons.IH[OF rest, of st] x show ?thesis by simp
  next
    case True
    let ?st1 = "unobserve t (st\<lparr>invoked := invoked st @ [eid t]\<rparr>)"
    have step: "visibility_callback (x # entries) st = visibility_callback entries ?st1"
      using x True rt by (simp add: became_visible_resolvable)
    have f: "supported ?st1 = supported st" "invoked ?st1 = invoked st @ [eid t]"
      "supported st \<longrightarrow> set (observed ?st1) = set (observed st) - {eid t}"
      by (auto simp: unobserve_fields)
    from Cons.IH[OF rest, of ?st1] step f x True show ?thesis by auto
  qed
qed

lemma eager_run:
  "\<not> supported st \<Longrightarrow> list_all resolvable xs \<Longrightarrow>
     invoked (lazy_run (map Observe xs) st) = invoked st @ map eid xs"
proof (induction xs arbitrary: st)
  case Nil
  then show ?case by simp
next
  case (Cons x xs)
  let ?st1 = "st\<lparr>invoked := invoked st @ [eid x]\<rparr>"
  from Cons.prems have step: "snd (observe x st) = ?st1"
    by (simp add: observe_def became_visible_resolvable)
  have "\<not> supported ?st1" using Cons.prems by simp
  from Cons.IH[OF this] Cons.prems step show ?case by simp
qed

lemma became_visible_other:
  "eid t \<noteq> i \<Longrightarrow> count_list (invoked (snd (became_visible t st))) i = count_list (invoked st) i
     \<and> observed (snd (became_visible t st)) = observed st
     \<and> supported (snd (became_visible t st)) = supported st"
  by (auto simp: became_visible_def split: option.splits)

lemma pending_entries:
  assumes "supported st"
    and "distinct (map (eid \<circ> fst) entries)"
    and "i \<in> set (map (eid \<circ> fst) entries) \<longrightarrow> i \<in> set (observed st)"
    and "list_all (\<lambda>(target, isIntersecting). eid target = i \<longrightarrow> resolvable target) entries"
  shows "pending i (snd (visibility_callback entries st)) \<le> pending i st"
  using assms
proof (induction entries arbitrary: st)
  case Nil
  then show ?case by simp
next
  case (Cons x entries)
  obtain t b where x: "x = (t, b)" by (cases x)
  from Cons.prems(2) x have d: "distinct (map (eid \<circ> fst) entries)"
    and fresh: "eid t \<notin> set (map (eid \<circ> fst) entries)" by (simp_all add: comp_def)
  from Cons.prems(4) x have r: "eid t = i \<longrightarrow> resolvable t"
    and rs: "list_all (\<lambda>(target, isIntersecting). eid target = i \<longrightarrow> resolvable target) entries"
    by simp_all
  show ?case
  proof (cases b)
    case False
    have "i \<in> set (map (eid \<circ> fst) entries) \<longrightarrow> i \<in> set (observed st)"
      using Cons.prems(3) by simp
    from Cons.IH[OF Cons.prems(1) d this rs] x False show ?thesis by simp
  next
    case True
    show ?thesis
    proof (cases "eid t = i")
      case hit: True
      with r have rt: "resolvable t" by simp
      let ?st1 = "unobserve t (st\<lparr>invoked := invoked st @ [eid t]\<rparr>)"
      have step: "visibility_callback (x # entries) st = visibility_callback entries ?st1"
        using x True rt by (simp add: became_visible_resolvable)
      from Cons.prems(3) x hit have was: "i \<in> set (observed st)" by simp
      have p1: "pending i ?st1 = pending i st"
        using was hit Cons.prems(1) by (simp add: pending_def unobserve_fields)
      have s1: "supported ?st1" using Cons.prems(1) by (simp add: unobserve_fields)
      have "i \<in> set (map (eid \<circ> fst) entries) \<longrightarrow> i \<in> set (observed ?st1)"
        using fresh hit by simp
      from Cons.IH[OF s1 d this rs] step p1 show ?thesis by simp
    next
      case miss: False
      obtain res st1 where bv: "became_visible t st = (res, st1)" by (cases "became_visible t st")
      from became_visible_other[OF miss, of st] bv
      have f: "count_list (invoked st1) i = count_list (invoked st) i"
        "observed st1 = observed st" "supported st1 = supported st" by simp_all
      show ?thesis
      proof (cases res)
        case (Some err)
        with bv x True have "snd (visibility_callback (x # entries) st) = st1" by simp
        then show ?thesis using f by (simp add: pending_def)
      next
        case None
        let ?st2 = "unobserve t st1"
        from None bv x True
        have step: "visibility_callback (x # entries) st = visibility_callback entries ?st2" by simp
        have s2: "supported ?st2" using f Cons.prems(1) by (simp add: unobserve_fields)
        have p2: "pending i ?st2 = pending i st"
          using f miss Cons.prems(1) by (auto simp: pending_def unobserve_fields)
        have "i \<in> set (map (eid \<circ> fst) entries) \<longrightarrow> i \<in> set (observed ?st2)"
          using Cons.prems(3) f miss Cons.prems(1) by (auto simp: unobserve_fields)
        from Cons.IH[OF s2 d this rs] step p2 show ?thesis by simp
      qed
    qed
  qed
qed

lemma pending_observe:
  "pending i (snd (observe e st)) \<le> pending i st + (if eid e = i then 1 else 0)"
  by (auto simp: pending_def observe_def became_visible_def split: option.splits)

lemma pending_disconnect: "pending i (disconnect st) \<le> pending i st"
  by (simp add: pending_def disconnect_def)

lemma pending_run:
  "well_delivered evs st \<Longrightarrow> resolves_in i evs \<Longrightarrow>
     pending i (lazy_run evs st) \<le> pending i st + observes_of i evs"
proof (induction evs arbitrary: st)
  case Nil
  then show ?case by simp
next
  case (Cons ev evs)
  show ?case
  proof (cases ev)
    case (Observe e)
    with Cons.prems have w: "well_delivered evs (snd (observe e st))" and r: "resolves_in i evs"
      by simp_all
    from Cons.IH[OF w r] pending_observe[of i e st] Observe show ?thesis by auto
  next
    case (Entries entries)
    with Cons.prems have w: "supported st"
      "distinct (map (eid \<circ> fst) entries)"
      "set (map (eid \<circ> fst) entries) \<subseteq> set (observed st)"
      "well_delivered evs (snd (visibility_callback entries st))"
      and r: "list_all (\<lambda>(target, isIntersecting). eid target = i \<longrightarrow> resolvable target) entries"
      "resolves_in i evs" by simp_all
    from w(3) have "i \<in> set (map (eid \<circ> fst) entries) \<longrightarrow> i \<in> set (observed st)" by blast
    from Cons.IH[OF w(4) r(2)] pending_entries[OF w(1,2) this r(1)] Entries show ?thesis by simp
  next
    case Disconnect
    with Cons.prems have "well_delivered evs (disconnect st)" "resolves_in i evs" by simp_all
    from Cons.IH[OF this] pending_disconnect[of i st] Disconnect show ?thesis by simp
  qed
qed

text \<open>
  A callback that throws: with intersection support the target of the throwing callback
  stays observed and the entries after it are not looked at; in the eager fallback
  \<^verbatim>\<open>lazyLoad\<close> ends at the element whose callback throws.
\<close>

lemma throwing_callback_stays_observed:
  "visibility_callback [(\<lparr>eid = 2, tagName = ''IMG'', classList = [''lazy''], dataset = [],
         listeners = [], onclick = False, action_assigned = None\<rparr>, True), (\<lparr>eid = 1, tagName = ''IMG'', classList = [''lazy''], dataset = [(''src'', ''/a.png'')],
         listeners = [], onclick = False, action_assigned = None\<rparr>, True)] \<lparr>supported = True, observed = [2, 1], invoked = []\<rparr>
     = (Some ''TypeError'', \<lparr>supported = True, observed = [2, 1], invoked = [2]\<rparr>)"
  by (simp add: became_visible_def data_def)

lemma throwing_callback_ends_lazyLoad:
  "lazyLoad [\<lparr>eid = 2, tagName = ''IMG'', classList = [''lazy''], dataset = [],
         listeners = [], onclick = False, action_assigned = None\<rparr>, \<lparr>eid = 1, tagName = ''IMG'', classList = [''lazy''], dataset = [(''src'', ''/a.png'')],
         listeners = [], onclick = False, action_assigned = None\<rparr>] \<lparr>supported = False, observed = [], invoked = []\<rparr>
     = (Some ''TypeError'', \<lparr>supported = False, observed = [], invoked = [2]\<rparr>)"
  by (simp add: lazyLoadImage_def observe_def became_visible_def data_def)

text \<open>
  Claim C7 as the spec states it fails: an element's callback is invoked again each time the
  element is observed again, and \<^verbatim>\<open>onContentLoaded\<close> observes every lazy element of the
  document on each content-loaded signal. In the eager fallback two such signals invoke the
  callback of the same image twice; with intersection support the image is observed again
  after it was resolved and unobserved, and the next intersecting entry invokes its callback
  a second time.
\<close>

theorem became_visible_twice:
  "invoked (snd (onContentLoaded_lazy
       [\<lparr>eid = 1, tagName = ''IMG'', classList = [''lazy''], dataset = [(''src'', ''/a.png'')],
         listeners = [], onclick = False, action_assigned = None\<rparr>]
     (snd (onContentLoaded_lazy
       [\<lparr>eid = 1, tagName = ''IMG'', classList = [''lazy''], dataset = [(''src'', ''/a.png'')],
         listeners = [], onclick = False, action_assigned = None\<rparr>]
       \<lparr>supported = False, observed = [], invoked = []\<rparr>)))) = [1, 1]
   \<and> invoked (snd (visibility_callback [(\<lparr>eid = 1, tagName = ''IMG'', classList = [''lazy''], dataset = [(''src'', ''/a.png'')],
         listeners = [], onclick = False, action_assigned = None\<rparr>, True)]
       (snd (onContentLoaded_lazy [\<lparr>eid = 1, tagName = ''IMG'', classList = [''lazy''], dataset = [(''src'', ''/a.png'')],
         listeners = [], onclick = False, action_assigned = None\<rparr>]
          (snd (visibility_callback [(\<lparr>eid = 1, tagName = ''IMG'', classList = [''lazy''], dataset = [(''src'', ''/a.png'')],
         listeners = [], onclick = False, action_assigned = None\<rparr>, True)]
             (snd (onContentLoaded_lazy [\<lparr>eid = 1, tagName = ''IMG'', classList = [''lazy''], dataset = [(''src'', ''/a.png'')],
         listeners = [], onclick = False, action_assigned = None\<rparr>]
                \<lparr>supported = True, observed = [], invoked = []\<rparr>)))))))) = [1, 1]"
  by (simp add: onContentLoaded_lazy_def lazyLoadImage_def observe_def disconnect_def
      became_visible_def unobserve_def data_def)

text \<open>
  Claim C7, amended. For a lazy-loaded element whose callback returns (an image with a
  \<^verbatim>\<open>data-src\<close>, an inline frame), the callback is invoked at most once per observation of
  the element. In the eager fallback every call of \<^verbatim>\<open>observe\<close> invokes it exactly once.
  With intersection support \<^verbatim>\<open>observe\<close> invokes nothing, and on a batch of entries whose
  callbacks all return the observer's callback invokes the callback of each intersecting
  target once and stops observing it. So, provided the browser delivers entries only for
  targets it observes at that moment and at most one entry per target in a batch, over any
  sequence of events from a fresh observer the number of invocations for an element whose
  callback returns at every entry delivered for it is at most the number of \<^verbatim>\<open>observe\<close>
  calls for it, whatever the callbacks of the other elements do.
\<close>

theorem became_visible_once_per_observe:
  "(\<not> supported st \<and> resolvable e \<longrightarrow>
      observe e st = (None, st\<lparr>invoked := invoked st @ [eid e]\<rparr>))
   \<and> (\<not> supported st \<and> list_all resolvable xs \<longrightarrow>
        invoked (lazy_run (map Observe xs) st) = invoked st @ map eid xs)
   \<and> (supported st \<longrightarrow>
        fst (observe e st) = None \<and> invoked (snd (observe e st)) = invoked st)
   \<and> (supported st \<and> list_all resolvable (map fst entries) \<longrightarrow>
        fst (visibility_callback entries st) = None
        \<and> invoked (snd (visibility_callback entries st))
            = invoked st @ map (eid \<circ> fst) (filter snd entries)
        \<and> set (observed (snd (visibility_callback entries st)))
            = set (observed st) - set (map (eid \<circ> fst) (filter snd entries)))
   \<and> (well_delivered evs st \<and> resolves_in i evs \<and> invoked st = [] \<and> observed st = [] \<longrightarrow>
        count_list (invoked (lazy_run evs st)) i \<le> observes_of i evs)"
proof (intro conjI impI)
  assume "\<not> supported st \<and> resolvable e"
  then show "observe e st = (None, st\<lparr>invoked := invoked st @ [eid e]\<rparr>)"
    by (simp add: observe_def became_visible_resolvable)
next
  assume "\<not> supported st \<and> list_all resolvable xs"
  then show "invoked (lazy_run (map Observe xs) st) = invoked st @ map eid xs"
    using eager_run by blast
next
  assume "supported st"
  then show "fst (observe e st) = None" by (simp add: observe_def)
next
  assume "supported st"
  then show "invoked (snd (observe e st)) = invoked st" by (simp add: observe_def)
next
  assume a: "supported st \<and> list_all resolvable (map fst entries)"
  then have r: "list_all resolvable (map fst entries)" by simp
  note v = visibility_callback_resolvable[OF r, of st]
  from v show "fst (visibility_callback entries st) = None" by simp
  from v show "invoked (snd (visibility_callback entries st))
            = invoked st @ map (eid \<circ> fst) (filter snd entries)" by simp
  from v a show "set (observed (snd (visibility_callback entries st)))
            = set (observed st) - set (map (eid \<circ> fst) (filter snd entries))" by simp
next
  assume a: "well_delivered evs st \<and> resolves_in i evs \<and> invoked st = [] \<and> observed st = []"
  then have "pending i (lazy_run evs st) \<le> pending i st + observes_of i evs"
    using pending_run by blast
  moreover have "pending i st = 0" using a by (simp add: pending_def)
  moreover have "count_list (invoked (lazy_run evs st)) i \<le> pending i (lazy_run evs st)"
    by (simp add: pending_def)
  ultimately show "count_list (invoked (lazy_run evs st)) i \<le> observes_of i evs" by linarith
qed

theorem became_visible_once_per_observe_witness:
  "well_delivered
      [Disconnect, Observe \<lparr>eid = 1, tagName = ''IMG'', classList = [''lazy''], dataset = [(''src'', ''/a.png'')],
         listeners = [], onclick = False, action_assigned = None\<rparr>,
       Observe \<lparr>eid = 2, tagName = ''IMG'', classList = [''lazy''], dataset = [],
         listeners = [], onclick = False, action_assigned = None\<rparr>,
       Entries [(\<lparr>eid = 2, tagName = ''IMG'', classList = [''lazy''], dataset = [],
         listeners = [], onclick = False, action_assigned = None\<rparr>, True),
                (\<lparr>eid = 1, tagName = ''IMG'', classList = [''lazy''], dataset = [(''src'', ''/a.png'')],
         listeners = [], onclick = False, action_assigned = None\<rparr>, True)],
       Entries [(\<lparr>eid = 1, tagName = ''IMG'', classList = [''lazy''], dataset = [(''src'', ''/a.png'')],
         listeners = [], onclick = False, action_assigned = None\<rparr>, True)],
       Disconnect, Observe \<lparr>eid = 1, tagName = ''IMG'', classList = [''lazy''], dataset = [(''src'', ''/a.png'')],
         listeners = [], onclick = False, action_assigned = None\<rparr>,
       Entries [(\<lparr>eid = 1, tagName = ''IMG'', classList = [''lazy''], dataset = [(''src'', ''/a.png'')],
         listeners = [], onclick = False, action_assigned = None\<rparr>, True)]]
      \<lparr>supported = True, observed = [], invoked = []\<rparr>
   \<and> resolves_in 1
      [Disconnect, Observe \<lparr>eid = 1, tagName = ''IMG'', classList = [''lazy''], dataset = [(''src'', ''/a.png'')],
         listeners = [], onclick = False, action_assigned = None\<rparr>,
       Observe \<lparr>eid = 2, tagName = ''IMG'', classList = [''lazy''], dataset = [],
         listeners = [], onclick = False, action_assigned = None\<rparr>,
       Entries [(\<lparr>eid = 2, tagName = ''IMG'', classList = [''lazy''], dataset = [],
         listeners = [], onclick = False, action_assigned = None\<rparr>, True),
                (\<lparr>eid = 1, tagName = ''IMG'', classList = [''lazy''], dataset = [(''src'', ''/a.png'')],
         listeners = [], onclick = False, action_assigned = None\<rparr>, True)],
       Entries [(\<lparr>eid = 1, tagName = ''IMG'', classList = [''lazy''], dataset = [(''src'', ''/a.png'')],
         listeners = [], onclick = False, action_assigned = None\<rparr>, True)],
       Disconnect, Observe \<lparr>eid = 1, tagName = ''IMG'', classList = [''lazy''], dataset = [(''src'', ''/a.png'')],
         listeners = [], onclick = False, action_assigned = None\<rparr>,
       Entries [(\<lparr>eid = 1, tagName = ''IMG'', classList = [''lazy''], dataset = [(''src'', ''/a.png'')],
         listeners = [], onclick = False, action_assigned = None\<rparr>, True)]]
   \<and> count_list (invoked (lazy_run
      [Disconnect, Observe \<lparr>eid = 1, tagName = ''IMG'', classList = [''lazy''], dataset = [(''src'', ''/a.png'')],
         listeners = [], onclick = False, action_assigned = None\<rparr>,
       Observe \<lparr>eid = 2, tagName = ''IMG'', classList = [''lazy''], dataset = [],
         listeners = [], onclick = False, action_assigned = None\<rparr>,
       Entries [(\<lparr>eid = 2, tagName = ''IMG'', classList = [''lazy''], dataset = [],
         listeners = [], onclick = False, action_assigned = None\<rparr>, True),
                (\<lparr>eid = 1, tagName = ''IMG'', classList = [''lazy''], dataset = [(''src'', ''/a.png'')],
         listeners = [], onclick = False, action_assigned = None\<rparr>, True)],
       Entries [(\<lparr>eid = 1, tagName = ''IMG'', classList = [''lazy''], dataset = [(''src'', ''/a.png'')],
         listeners = [], onclick = False, action_assigned = None\<rparr>, True)],
       Disconnect, Observe \<lparr>eid = 1, tagName = ''IMG'', classList = [''lazy''], dataset = [(''src'', ''/a.png'')],
         listeners = [], onclick = False, action_assigned = None\<rparr>,
       Entries [(\<lparr>eid = 1, tagName = ''IMG'', classList = [''lazy''], dataset = [(''src'', ''/a.png'')],
         listeners = [], onclick = False, action_assigned = None\<rparr>, True)]]
        \<lparr>supported = True, observed = [], invoked = []\<rparr>)) 1 = 2
   \<and> observes_of 1
      [Disconnect, Observe \<lparr>eid = 1, tagName = ''IMG'', classList = [''lazy''], dataset = [(''src'', ''/a.png'')],
         listeners = [], onclick = False, action_assigned = None\<rparr>,
       Observe \<lparr>eid = 2, tagName = ''IMG'', classList = [''lazy''], dataset = [],
         listeners = [], onclick = False, action_assigned = None\<rparr>,
       Entries [(\<lparr>eid = 2, tagName = ''IMG'', classList = [''lazy''], dataset = [],
         listeners = [], onclick = False, action_assigned = None\<rparr>, True),
                (\<lparr>eid = 1, tagName = ''IMG'', classList = [''lazy''], dataset = [(''src'', ''/a.png'')],
         listeners = [], onclick = False, action_assigned = None\<rparr>, True)],
       Entries [(\<lparr>eid = 1, tagName = ''IMG'', classList = [''lazy''], dataset = [(''src'', ''/a.png'')],
         listeners = [], onclick = False, action_assigned = None\<rparr>, True)],
       Disconnect, Observe \<lparr>eid = 1, tagName = ''IMG'', classList = [''lazy''], dataset = [(''src'', ''/a.png'')],
         listeners = [], onclick = False, action_assigned = None\<rparr>,
       Entries [(\<lparr>eid = 1, tagName = ''IMG'', classList = [''lazy''], dataset = [(''src'', ''/a.png'')],
         listeners = [], onclick = False, action_assigned = None\<rparr>, True)]] = 2
   \<and> resolvable \<lparr>eid = 1, tagName = ''IMG'', classList = [''lazy''], dataset = [(''src'', ''/a.png'')],
         listeners = [], onclick = False, action_assigned = None\<rparr>
   \<and> invoked (snd (observe \<lparr>eid = 1, tagName = ''IMG'', classList = [''lazy''], dataset = [(''src'', ''/a.png'')],
         listeners = [], onclick = False, action_assigned = None\<rparr>
        \<lparr>supported = False, observed = [], invoked = []\<rparr>)) = [1]"
  using became_visible_once_per_observe[where st = "\<lparr>supported = True, observed = [], invoked = []\<rparr>"
      and evs = "[Disconnect, Observe \<lparr>eid = 1, tagName = ''IMG'', classList = [''lazy''], dataset = [(''src'', ''/a.png'')],
         listeners = [], onclick = False, action_assigned = None\<rparr>,
       Observe \<lparr>eid = 2, tagName = ''IMG'', classList = [''lazy''], dataset = [],
         listeners = [], onclick = False, action_assigned = None\<rparr>,
       Entries [(\<lparr>eid = 2, tagName = ''IMG'', classList = [''lazy''], dataset = [],
         listeners = [], onclick = False, action_assigned = None\<rparr>, True),
                (\<lparr>eid = 1, tagName = ''IMG'', classList = [''lazy''], dataset = [(''src'', ''/a.png'')],
         listeners = [], onclick = False, action_assigned = None\<rparr>, True)],
       Entries [(\<lparr>eid = 1, tagName = ''IMG'', classList = [''lazy''], dataset = [(''src'', ''/a.png'')],
         listeners = [], onclick = False, action_assigned = None\<rparr>, True)],
       Disconnect, Observe \<lparr>eid = 1, tagName = ''IMG'', classList = [''lazy''], dataset = [(''src'', ''/a.png'')],
         listeners = [], onclick = False, action_assigned = None\<rparr>,
       Entries [(\<lparr>eid = 1, tagName = ''IMG'', classList = [''lazy''], dataset = [(''src'', ''/a.png'')],
         listeners = [], onclick = False, action_assigned = None\<rparr>, True)]]"
      and i = 1]
    became_visible_once_per_observe[where st = "\<lparr>supported = False, observed = [], invoked = []\<rparr>"
      and e = "\<lparr>eid = 1, tagName = ''IMG'', classList = [''lazy''], dataset = [(''src'', ''/a.png'')],
         listeners = [], onclick = False, action_assigned = None\<rparr>"]
  by (simp add: observe_def disconnect_def became_visible_def unobserve_def resolvable_def data_def)

section \<open>Action binding\<close>

text \<open>
  One element: registering a known action on an element without listeners, an unknown
  action, and the cases of \<^verbatim>\<open>assignActions\<close> on an element with and without a record. Then
  the pass: the element at each position is the result of binding the element that was at
  that position, and the messages shown only grow.
\<close>

lemma register_action_known:
  assumes "n \<in> set acts" "listeners e = []"
  shows "register_action acts t n e b =
     ((if t = ''click'' \<and> tagName e = ''A'' then e\<lparr>onclick := False\<rparr> else e)
        \<lparr>listeners := [(t, next_handler b)],
         action_assigned := Some \<lparr>a_trigger = t, a_action = n, a_handler = next_handler b\<rparr>\<rparr>,
      b\<lparr>next_handler := Suc (next_handler b)\<rparr>)"
  using assms by (simp add: register_action_def addEventListener_def Let_def)

lemma register_action_unknown:
  assumes "n \<notin> set acts"
  shows "listeners (fst (register_action acts t n e b)) = listeners e"
    and "action_assigned (fst (register_action acts t n e b)) = action_assigned e"
    and "dataset (fst (register_action acts t n e b)) = dataset e"
  using assms by (simp_all add: register_action_def Let_def)

lemma assign_element_dataset: "dataset (fst (assign_element acts e b)) = dataset e"
  by (auto simp: assign_element_def register_action_def addEventListener_def removeEventListener_def
      Let_def split: option.splits)

lemma assign_element_at_most_one:
  assumes "at_most_one e"
  shows "at_most_one (fst (assign_element acts e b))"
proof (cases "\<exists>t n. declares e t n")
  case False
  then have "assign_element acts e b = (e, b)"
    by (auto simp: assign_element_def declares_def split: option.splits)
  with assms show ?thesis by simp
next
  case True
  then obtain t n where d: "declares e t n" by blast
  show ?thesis
  proof (cases "action_assigned e")
    case None
    with assms have l: "listeners e = []" by (simp add: at_most_one_def)
    from d None have "assign_element acts e b = register_action acts t n e b"
      by (simp add: assign_element_def declares_def)
    then show ?thesis using l None
      by (cases "n \<in> set acts")
         (simp_all add: register_action_known at_most_one_def register_action_unknown)
  next
    case (Some old)
    show ?thesis
    proof (cases "a_trigger old = t \<and> a_action old = n")
      case True
      with d Some have "assign_element acts e b = (e, b)"
        by (simp add: assign_element_def declares_def)
      with assms show ?thesis by simp
    next
      case False
      let ?e = "removeEventListener (a_trigger old) (a_handler old) e"
      from False d Some have eq: "assign_element acts e b = register_action acts t n ?e b"
        by (auto simp: assign_element_def declares_def)
      from assms Some have l: "listeners ?e = []"
        by (auto simp: at_most_one_def removeEventListener_def)
      have a: "action_assigned ?e = Some old" using Some by (simp add: removeEventListener_def)
      show ?thesis using eq l a
        by (cases "n \<in> set acts")
           (simp_all add: register_action_known at_most_one_def register_action_unknown)
    qed
  qed
qed

lemma assign_element_bound:
  assumes "in_sync e" "declares e t n" "n \<in> set acts"
  shows "\<exists>h. listeners (fst (assign_element acts e b)) = [(t, h)]
            \<and> action_assigned (fst (assign_element acts e b))
                = Some \<lparr>a_trigger = t, a_action = n, a_handler = h\<rparr>"
proof (cases "action_assigned e")
  case None
  with assms have l: "listeners e = []" by (simp add: in_sync_def)
  from assms None have "assign_element acts e b = register_action acts t n e b"
    by (simp add: assign_element_def declares_def)
  then show ?thesis using l assms(3) by (simp add: register_action_known)
next
  case (Some old)
  show ?thesis
  proof (cases "a_trigger old = t \<and> a_action old = n")
    case True
    with assms Some have "assign_element acts e b = (e, b)"
      by (simp add: assign_element_def declares_def)
    moreover have "old = \<lparr>a_trigger = t, a_action = n, a_handler = a_handler old\<rparr>"
      using True by simp
    ultimately show ?thesis using assms(1) Some True
      by (auto simp: in_sync_def)
  next
    case False
    let ?e = "removeEventListener (a_trigger old) (a_handler old) e"
    from False assms Some have eq: "assign_element acts e b = register_action acts t n ?e b"
      by (auto simp: assign_element_def declares_def)
    from assms Some have l: "listeners ?e = []"
      by (auto simp: in_sync_def removeEventListener_def)
    show ?thesis using eq l assms(3) by (simp add: register_action_known)
  qed
qed

lemma assign_element_again:
  assumes "declares e t n"
    and "action_assigned e = Some \<lparr>a_trigger = t, a_action = n, a_handler = h\<rparr>"
  shows "assign_element acts e b = (e, b)"
  using assms by (simp add: assign_element_def declares_def)

lemma declares_assign_element:
  "declares (fst (assign_element acts e b)) t n = declares e t n"
  by (simp add: declares_def data_def assign_element_dataset)

lemma assignActions_Cons:
  "assignActions acts (e # es) b =
     (fst (assign_element acts e b) # fst (assignActions acts es (snd (assign_element acts e b))),
      snd (assignActions acts es (snd (assign_element acts e b))))"
  by (simp split: prod.splits)

lemma register_action_warns:
  "n \<notin> set acts \<Longrightarrow>
     status_errors (snd (register_action acts t n e b)) = status_errors b @ [warning_for n]"
  by (simp add: register_action_def Let_def warning_for_def)

lemma assign_element_undefined:
  assumes "at_most_one e" "declares e t n" "n \<notin> set acts" "\<not> recorded e t n"
  shows "listeners (fst (assign_element acts e b)) = []
       \<and> action_assigned (fst (assign_element acts e b)) = action_assigned e
       \<and> status_errors (snd (assign_element acts e b)) = status_errors b @ [warning_for n]"
proof (cases "action_assigned e")
  case None
  with assms have l: "listeners e = []" by (simp add: at_most_one_def)
  from assms None have "assign_element acts e b = register_action acts t n e b"
    by (simp add: assign_element_def declares_def)
  then show ?thesis using l None assms(3)
    by (simp add: register_action_unknown register_action_warns)
next
  case (Some old)
  let ?e = "removeEventListener (a_trigger old) (a_handler old) e"
  from assms(4) Some have "\<not> (a_trigger old = t \<and> a_action old = n)" by (simp add: recorded_def)
  with assms Some have eq: "assign_element acts e b = register_action acts t n ?e b"
    by (auto simp: assign_element_def declares_def)
  from assms Some have l: "listeners ?e = []"
    by (auto simp: at_most_one_def removeEventListener_def)
  have a: "action_assigned ?e = Some old" using Some by (simp add: removeEventListener_def)
  show ?thesis using eq l a Some assms(3)
    by (simp add: register_action_unknown register_action_warns)
qed

lemma assign_element_errors_grow:
  "set (status_errors b) \<subseteq> set (status_errors (snd (assign_element acts e b)))"
  by (auto simp: assign_element_def register_action_def Let_def split: option.splits)

lemma assignActions_errors_grow:
  "set (status_errors b) \<subseteq> set (status_errors (snd (assignActions acts es b)))"
proof (induction es arbitrary: b)
  case Nil
  then show ?case by simp
next
  case (Cons e es)
  have "set (status_errors b) \<subseteq> set (status_errors (snd (assign_element acts e b)))"
    by (rule assign_element_errors_grow)
  also have "\<dots> \<subseteq> set (status_errors (snd (assignActions acts es (snd (assign_element acts e b)))))"
    by (rule Cons.IH)
  finally show ?case by (simp only: assignActions_Cons snd_conv)
qed

lemma assignActions_length: "length (fst (assignActions acts es b)) = length es"
proof (induction es arbitrary: b)
  case Nil
  then show ?case by simp
next
  case (Cons e es)
  then show ?case by (simp only: assignActions_Cons fst_conv) simp
qed

lemma assignActions_nth:
  "i < length es \<Longrightarrow>
     \<exists>b'. fst (assignActions acts es b) ! i = fst (assign_element acts (es ! i) b')
        \<and> set (status_errors (snd (assign_element acts (es ! i) b')))
            \<subseteq> set (status_errors (snd (assignActions acts es b)))"
proof (induction es arbitrary: b i)
  case Nil
  then show ?case by simp
next
  case (Cons e es)
  show ?case
  proof (cases i)
    case 0
    have "set (status_errors (snd (assign_element acts e b)))
        \<subseteq> set (status_errors (snd (assignActions acts (e # es) b)))"
      using assignActions_errors_grow[of "snd (assign_element acts e b)" acts es]
      by (simp only: assignActions_Cons snd_conv)
    then show ?thesis using 0 by (intro exI[of _ b]) (simp only: assignActions_Cons fst_conv, simp)
  next
    case (Suc j)
    with Cons.prems have "j < length es" by simp
    from Cons.IH[OF this, of "snd (assign_element acts e b)"]
    obtain b' where "fst (assignActions acts es (snd (assign_element acts e b))) ! j
          = fst (assign_element acts (es ! j) b')"
      "set (status_errors (snd (assign_element acts (es ! j) b')))
          \<subseteq> set (status_errors (snd (assignActions acts es (snd (assign_element acts e b)))))"
      by blast
    then show ?thesis using Suc
      by (intro exI[of _ b']) (simp only: assignActions_Cons fst_conv snd_conv, simp)
  qed
qed

text \<open>
  Claim C8 as the spec states it fails for an element whose declared action is not defined:
  the pass warns and skips it, so after two passes with the pair unchanged it has no
  listener at all.
\<close>

theorem undefined_action_no_listener:
  "map listeners (fst (assignActions [''like'']
      (fst (assignActions [''like'']
         [\<lparr>eid = 1, tagName = ''BUTTON'', classList = [''action''],
           dataset = [(''trigger'', ''click''), (''action'', ''nope'')], listeners = [],
           onclick = False, action_assigned = None\<rparr>]
         \<lparr>next_handler = 0, status_errors = []\<rparr>))
      (snd (assignActions [''like'']
         [\<lparr>eid = 1, tagName = ''BUTTON'', classList = [''action''],
           dataset = [(''trigger'', ''click''), (''action'', ''nope'')], listeners = [],
           onclick = False, action_assigned = None\<rparr>]
         \<lparr>next_handler = 0, status_errors = []\<rparr>)))) = [[]]"
  by (simp add: assign_element_def register_action_def data_def Let_def)

text \<open>
  Claim C8, amended, for the element at any position of a binding pass, whatever the other
  elements of the pass declare. An element with at most one binding has at most one binding
  after the pass. An element that is in step and declares a pair whose action is defined has
  exactly one listener after the pass, the one for the declared pair, recorded on it (an old
  listener for another pair was removed, the new one registered); a second pass with the
  pair unchanged leaves it as it is. An element with at most one binding that declares a
  pair not recorded on it whose action is not defined has no listener after the pass, and
  the pass shows the warning for that action name; a second pass with the pair unchanged
  again leaves it without listener and shows the warning.
\<close>

theorem assignActions_binding:
  "length (fst (assignActions acts es b)) = length es
   \<and> (i < length es \<and> at_most_one (es ! i) \<longrightarrow>
        at_most_one (fst (assignActions acts es b) ! i))
   \<and> (i < length es \<and> in_sync (es ! i) \<and> declares (es ! i) t n \<and> n \<in> set acts \<longrightarrow>
        (\<exists>h. listeners (fst (assignActions acts es b) ! i) = [(t, h)]
           \<and> action_assigned (fst (assignActions acts es b) ! i)
               = Some \<lparr>a_trigger = t, a_action = n, a_handler = h\<rparr>)
        \<and> fst (assignActions acts (fst (assignActions acts es b)) b2) ! i
            = fst (assignActions acts es b) ! i)
   \<and> (i < length es \<and> at_most_one (es ! i) \<and> declares (es ! i) t n \<and> n \<notin> set acts
        \<and> \<not> recorded (es ! i) t n \<longrightarrow>
        listeners (fst (assignActions acts es b) ! i) = []
        \<and> warning_for n \<in> set (status_errors (snd (assignActions acts es b)))
        \<and> listeners (fst (assignActions acts (fst (assignActions acts es b)) b2) ! i) = []
        \<and> warning_for n
            \<in> set (status_errors (snd (assignActions acts (fst (assignActions acts es b)) b2))))"
proof (intro conjI impI)
  show "length (fst (assignActions acts es b)) = length es" by (rule assignActions_length)
next
  assume a: "i < length es \<and> at_most_one (es ! i)"
  then obtain b' where "fst (assignActions acts es b) ! i = fst (assign_element acts (es ! i) b')"
    using assignActions_nth[of i es acts b] by blast
  then show "at_most_one (fst (assignActions acts es b) ! i)"
    using a assign_element_at_most_one by simp
next
  assume a: "i < length es \<and> in_sync (es ! i) \<and> declares (es ! i) t n \<and> n \<in> set acts"
  then obtain b' where b': "fst (assignActions acts es b) ! i = fst (assign_element acts (es ! i) b')"
    using assignActions_nth[of i es acts b] by blast
  from a have "in_sync (es ! i)" "declares (es ! i) t n" "n \<in> set acts" by simp_all
  from assign_element_bound[OF this, of b']
  show "\<exists>h. listeners (fst (assignActions acts es b) ! i) = [(t, h)]
           \<and> action_assigned (fst (assignActions acts es b) ! i)
               = Some \<lparr>a_trigger = t, a_action = n, a_handler = h\<rparr>"
    using b' by simp
next
  assume a: "i < length es \<and> in_sync (es ! i) \<and> declares (es ! i) t n \<and> n \<in> set acts"
  let ?r = "fst (assignActions acts es b)"
  from a obtain b' where b': "?r ! i = fst (assign_element acts (es ! i) b')"
    using assignActions_nth[of i es acts b] by blast
  from a have p: "in_sync (es ! i)" "declares (es ! i) t n" "n \<in> set acts" by simp_all
  from assign_element_bound[OF p, of b'] obtain h where
    rec: "action_assigned (?r ! i) = Some \<lparr>a_trigger = t, a_action = n, a_handler = h\<rparr>"
    using b' by auto
  have d: "declares (?r ! i) t n" using p(2) b' by (simp add: declares_assign_element)
  from a have "i < length ?r" by (simp add: assignActions_length)
  then obtain b'' where "fst (assignActions acts ?r b2) ! i = fst (assign_element acts (?r ! i) b'')"
    using assignActions_nth[of i ?r acts b2] by blast
  then show "fst (assignActions acts ?r b2) ! i = ?r ! i"
    using assign_element_again[OF d rec, of acts b''] by simp
next
  assume a: "i < length es \<and> at_most_one (es ! i) \<and> declares (es ! i) t n \<and> n \<notin> set acts
        \<and> \<not> recorded (es ! i) t n"
  then obtain b' where b': "fst (assignActions acts es b) ! i = fst (assign_element acts (es ! i) b')"
    using assignActions_nth[of i es acts b] by blast
  from a have p: "at_most_one (es ! i)" "declares (es ! i) t n" "n \<notin> set acts"
    "\<not> recorded (es ! i) t n" by simp_all
  from assign_element_undefined[OF p, of b'] b'
  show "listeners (fst (assignActions acts es b) ! i) = []" by simp
next
  assume a: "i < length es \<and> at_most_one (es ! i) \<and> declares (es ! i) t n \<and> n \<notin> set acts
        \<and> \<not> recorded (es ! i) t n"
  then obtain b' where b': "set (status_errors (snd (assign_element acts (es ! i) b')))
            \<subseteq> set (status_errors (snd (assignActions acts es b)))"
    using assignActions_nth[of i es acts b] by blast
  from a have p: "at_most_one (es ! i)" "declares (es ! i) t n" "n \<notin> set acts"
    "\<not> recorded (es ! i) t n" by simp_all
  from assign_element_undefined[OF p, of b']
  have "warning_for n \<in> set (status_errors (snd (assign_element acts (es ! i) b')))" by simp
  with b' show "warning_for n \<in> set (status_errors (snd (assignActions acts es b)))" by blast
next
  assume a: "i < length es \<and> at_most_one (es ! i) \<and> declares (es ! i) t n \<and> n \<notin> set acts
        \<and> \<not> recorded (es ! i) t n"
  let ?r = "fst (assignActions acts es b)"
  from a obtain b' where b': "?r ! i = fst (assign_element acts (es ! i) b')"
    using assignActions_nth[of i es acts b] by blast
  from a have p: "at_most_one (es ! i)" "declares (es ! i) t n" "n \<notin> set acts"
    "\<not> recorded (es ! i) t n" by simp_all
  have q: "at_most_one (?r ! i)" "declares (?r ! i) t n" "\<not> recorded (?r ! i) t n"
    using b' p assign_element_at_most_one[of "es ! i" acts b']
      assign_element_undefined[OF p, of b']
    by (simp_all add: declares_assign_element recorded_def)
  from a have "i < length ?r" by (simp add: assignActions_length)
  then obtain b'' where b'': "fst (assignActions acts ?r b2) ! i = fst (assign_element acts (?r ! i) b'')"
    "set (status_errors (snd (assign_element acts (?r ! i) b'')))
            \<subseteq> set (status_errors (snd (assignActions acts ?r b2)))"
    using assignActions_nth[of i ?r acts b2] by blast
  note u = assign_element_undefined[OF q(1,2) p(3) q(3), of b'']
  from u b''(1) show "listeners (fst (assignActions acts ?r b2) ! i) = []" by simp
  from u have "warning_for n \<in> set (status_errors (snd (assign_element acts (?r ! i) b'')))" by simp
  with b''(2) show "warning_for n \<in> set (status_errors (snd (assignActions acts ?r b2)))" by blast
qed

theorem assignActions_binding_witness:
  "in_sync ([\<lparr>eid = 1, tagName = ''A'', classList = [''action''],
        dataset = [(''trigger'', ''click''), (''action'', ''like'')],
        listeners = [(''click'', 7)], onclick = True,
        action_assigned = Some \<lparr>a_trigger = ''click'', a_action = ''unlike'', a_handler = 7\<rparr>\<rparr>,
       \<lparr>eid = 2, tagName = ''BUTTON'', classList = [''action''],
        dataset = [(''trigger'', ''click''), (''action'', ''nope'')],
        listeners = [], onclick = False, action_assigned = None\<rparr>] ! 0)
   \<and> declares ([\<lparr>eid = 1, tagName = ''A'', classList = [''action''],
        dataset = [(''trigger'', ''click''), (''action'', ''like'')],
        listeners = [(''click'', 7)], onclick = True,
        action_assigned = Some \<lparr>a_trigger = ''click'', a_action = ''unlike'', a_handler = 7\<rparr>\<rparr>,
       \<lparr>eid = 2, tagName = ''BUTTON'', classList = [''action''],
        dataset = [(''trigger'', ''click''), (''action'', ''nope'')],
        listeners = [], onclick = False, action_assigned = None\<rparr>] ! 0) ''click'' ''like''
   \<and> ''like'' \<in> set [''like'', ''unlike'']
   \<and> listeners (fst (assignActions [''like'', ''unlike'']
      [\<lparr>eid = 1, tagName = ''A'', classList = [''action''],
        dataset = [(''trigger'', ''click''), (''action'', ''like'')],
        listeners = [(''click'', 7)], onclick = True,
        action_assigned = Some \<lparr>a_trigger = ''click'', a_action = ''unlike'', a_handler = 7\<rparr>\<rparr>,
       \<lparr>eid = 2, tagName = ''BUTTON'', classList = [''action''],
        dataset = [(''trigger'', ''click''), (''action'', ''nope'')],
        listeners = [], onclick = False, action_assigned = None\<rparr>]
      \<lparr>next_handler = 8, status_errors = []\<rparr>) ! 0) = [(''click'', 8)]
   \<and> fst (assignActions [''like'', ''unlike''] (fst (assignActions [''like'', ''unlike'']
      [\<lparr>eid = 1, tagName = ''A'', classList = [''action''],
        dataset = [(''trigger'', ''click''), (''action'', ''like'')],
        listeners = [(''click'', 7)], onclick = True,
        action_assigned = Some \<lparr>a_trigger = ''click'', a_action = ''unlike'', a_handler = 7\<rparr>\<rparr>,
       \<lparr>eid = 2, tagName = ''BUTTON'', classList = [''action''],
        dataset = [(''trigger'', ''click''), (''action'', ''nope'')],
        listeners = [], onclick = False, action_assigned = None\<rparr>]
      \<lparr>next_handler = 8, status_errors = []\<rparr>)) (snd (assignActions [''like'', ''unlike'']
      [\<lparr>eid = 1, tagName = ''A'', classList = [''action''],
        dataset = [(''trigger'', ''click''), (''action'', ''like'')],
        listeners = [(''click'', 7)], onclick = True,
        action_assigned = Some \<lparr>a_trigger = ''click'', a_action = ''unlike'', a_handler = 7\<rparr>\<rparr>,
       \<lparr>eid = 2, tagName = ''BUTTON'', classList = [''action''],
        dataset = [(''trigger'', ''click''), (''action'', ''nope'')],
        listeners = [], onclick = False, action_assigned = None\<rparr>]
      \<lparr>next_handler = 8, status_errors = []\<rparr>))) ! 0 = fst (assignActions [''like'', ''unlike'']
      [\<lparr>eid = 1, tagName = ''A'', classList = [''action''],
        dataset = [(''trigger'', ''click''), (''action'', ''like'')],
        listeners = [(''click'', 7)], onclick = True,
        action_assigned = Some \<lparr>a_trigger = ''click'', a_action = ''unlike'', a_handler = 7\<rparr>\<rparr>,
       \<lparr>eid = 2, tagName = ''BUTTON'', classList = [''action''],
        dataset = [(''trigger'', ''click''), (''action'', ''nope'')],
        listeners = [], onclick = False, action_assigned = None\<rparr>]
      \<lparr>next_handler = 8, status_errors = []\<rparr>) ! 0
   \<and> at_most_one ([\<lparr>eid = 1, tagName = ''A'', classList = [''action''],
        dataset = [(''trigger'', ''click''), (''action'', ''like'')],
        listeners = [(''click'', 7)], onclick = True,
        action_assigned = Some \<lparr>a_trigger = ''click'', a_action = ''unlike'', a_handler = 7\<rparr>\<rparr>,
       \<lparr>eid = 2, tagName = ''BUTTON'', classList = [''action''],
        dataset = [(''trigger'', ''click''), (''action'', ''nope'')],
        listeners = [], onclick = False, action_assigned = None\<rparr>] ! 1)
   \<and> declares ([\<lparr>eid = 1, tagName = ''A'', classList = [''action''],
        dataset = [(''trigger'', ''click''), (''action'', ''like'')],
        listeners = [(''click'', 7)], onclick = True,
        action_assigned = Some \<lparr>a_trigger = ''click'', a_action = ''unlike'', a_handler = 7\<rparr>\<rparr>,
       \<lparr>eid = 2, tagName = ''BUTTON'', classList = [''action''],
        dataset = [(''trigger'', ''click''), (''action'', ''nope'')],
        listeners = [], onclick = False, action_assigned = None\<rparr>] ! 1) ''click'' ''nope''
   \<and> ''nope'' \<notin> set [''like'', ''unlike'']
   \<and> \<not> recorded ([\<lparr>eid = 1, tagName = ''A'', classList = [''action''],
        dataset = [(''trigger'', ''click''), (''action'', ''like'')],
        listeners = [(''click'', 7)], onclick = True,
        action_assigned = Some \<lparr>a_trigger = ''click'', a_action = ''unlike'', a_handler = 7\<rparr>\<rparr>,
       \<lparr>eid = 2, tagName = ''BUTTON'', classList = [''action''],
        dataset = [(''trigger'', ''click''), (''action'', ''nope'')],
        listeners = [], onclick = False, action_assigned = None\<rparr>] ! 1) ''click'' ''nope''
   \<and> listeners (fst (assignActions [''like'', ''unlike'']
      [\<lparr>eid = 1, tagName = ''A'', classList = [''action''],
        dataset = [(''trigger'', ''click''), (''action'', ''like'')],
        listeners = [(''click'', 7)], onclick = True,
        action_assigned = Some \<lparr>a_trigger = ''click'', a_action = ''unlike'', a_handler = 7\<rparr>\<rparr>,
       \<lparr>eid = 2, tagName = ''BUTTON'', classList = [''action''],
        dataset = [(''trigger'', ''click''), (''action'', ''nope'')],
        listeners = [], onclick = False, action_assigned = None\<rparr>]
      \<lparr>next_handler = 8, status_errors = []\<rparr>) ! 1) = []
   \<and> status_errors (snd (assignActions [''like'', ''unlike'']
      [\<lparr>eid = 1, tagName = ''A'', classList = [''action''],
        dataset = [(''trigger'', ''click''), (''action'', ''like'')],
        listeners = [(''click'', 7)], onclick = True,
        action_assigned = Some \<lparr>a_trigger = ''click'', a_action = ''unlike'', a_handler = 7\<rparr>\<rparr>,
       \<lparr>eid = 2, tagName = ''BUTTON'', classList = [''action''],
        dataset = [(''trigger'', ''click''), (''action'', ''nope'')],
        listeners = [], onclick = False, action_assigned = None\<rparr>]
      \<lparr>next_handler = 8, status_errors = []\<rparr>)) = [warning_for ''nope'']"
  using assignActions_binding[where acts = "[''like'', ''unlike'']"
      and es = "[\<lparr>eid = 1, tagName = ''A'', classList = [''action''],
        dataset = [(''trigger'', ''click''), (''action'', ''like'')],
        listeners = [(''click'', 7)], onclick = True,
        action_assigned = Some \<lparr>a_trigger = ''click'', a_action = ''unlike'', a_handler = 7\<rparr>\<rparr>,
       \<lparr>eid = 2, tagName = ''BUTTON'', classList = [''action''],
        dataset = [(''trigger'', ''click''), (''action'', ''nope'')],
        listeners = [], onclick = False, action_assigned = None\<rparr>]"
      and b = "\<lparr>next_handler = 8, status_errors = []\<rparr>" and i = 0 and t = "''click''" and n = "''like''"
      and ?b2.0 = "snd (assignActions [''like'', ''unlike'']
      [\<lparr>eid = 1, tagName = ''A'', classList = [''action''],
        dataset = [(''trigger'', ''click''), (''action'', ''like'')],
        listeners = [(''click'', 7)], onclick = True,
        action_assigned = Some \<lparr>a_trigger = ''click'', a_action = ''unlike'', a_handler = 7\<rparr>\<rparr>,
       \<lparr>eid = 2, tagName = ''BUTTON'', classList = [''action''],
        dataset = [(''trigger'', ''click''), (''action'', ''nope'')],
        listeners = [], onclick = False, action_assigned = None\<rparr>]
      \<lparr>next_handler = 8, status_errors = []\<rparr>)"]
    assignActions_binding[where acts = "[''like'', ''unlike'']"
      and es = "[\<lparr>eid = 1, tagName = ''A'', classList = [''action''],
        dataset = [(''trigger'', ''click''), (''action'', ''like'')],
        listeners = [(''click'', 7)], onclick = True,
        action_assigned = Some \<lparr>a_trigger = ''click'', a_action = ''unlike'', a_handler = 7\<rparr>\<rparr>,
       \<lparr>eid = 2, tagName = ''BUTTON'', classList = [''action''],
        dataset = [(''trigger'', ''click''), (''action'', ''nope'')],
        listeners = [], onclick = False, action_assigned = None\<rparr>]"
      and b = "\<lparr>next_handler = 8, status_errors = []\<rparr>" and i = 1 and t = "''click''" and n = "''nope''"]
  by (simp add: at_most_one_def in_sync_def declares_def recorded_def warning_for_def
      assign_element_def register_action_def data_def Let_def addEventListener_def
      removeEventListener_def)

section \<open>Persistence across patches\<close>

text \<open>
  What the constructor leaves in the two persistence sets, what an in-place update keeps of
  an element's classes and attributes, and how the patched children line up with the
  target's. A live element found at a path before and after the patch, with an identity
  the target tree does not use, was updated in place.
\<close>

lemma set_add_set: "set (set_add x xs) = insert x (set xs)"
  by (auto simp: set_add_def)

lemma constructor_persistence_classes:
  "set (persistentClasses (constructor_persistence d))
     = {''mounted'', ''element-found'', ''active''} \<union> set (persistentClasses d)"
  by (auto simp: constructor_persistence_def Let_def set_add_set)

lemma constructor_persistence_attributes:
  "set (persistentAttributes (constructor_persistence d))
     = insert ''src'' (set (persistentAttributes d))"
  by (simp add: constructor_persistence_def Let_def set_add_set)

lemma patch_classes_keeps:
  "c \<in> set live \<Longrightarrow> c \<in> set (persistentClasses d) \<Longrightarrow> c \<in> set (patch_classes d live target)"
  by (auto simp: patch_classes_def)

lemma map_of_filter_key:
  "(\<And>v. P (k, v)) \<Longrightarrow> map_of (filter P xs) k = map_of xs k"
  by (induction xs) auto

lemma map_of_map_keep:
  assumes "\<And>a b. fst (f (a, b)) = a"
  shows "map_of (map f xs) k = map_option (\<lambda>v. snd (f (k, v))) (map_of xs k)"
proof (induction xs)
  case Nil
  then show ?case by simp
next
  case (Cons x xs)
  obtain a b where x: "x = (a, b)" by (cases x)
  obtain c where f: "f (a, b) = (a, c)" using assms[of a b] by (cases "f (a, b)") simp
  show ?case using Cons x f by (cases "a = k") simp_all
qed

lemma patch_attributes_keeps:
  assumes "k \<in> set (persistentAttributes d)" "map_of live k = Some v"
  shows "\<exists>v'. map_of (patch_attributes d live target) k = Some v' \<and> (v \<noteq> [] \<longrightarrow> v' \<noteq> [])"
proof (cases "map_of target k")
  case None
  then have nk: "k \<notin> fst ` set target" by (simp add: map_of_eq_None_iff)
  let ?f = "\<lambda>(k, v). if k \<in> set (persistentAttributes d) \<and> v = []
            then (case map_of live k of Some old \<Rightarrow> (k, old) | None \<Rightarrow> (k, v)) else (k, v)"
  have "map_of (map ?f target) k = None"
    using None by (subst map_of_map_keep) (auto split: option.splits)
  moreover have "map_of (filter (\<lambda>(k, v). k \<in> set (persistentAttributes d) \<and> k \<notin> fst ` set target) live) k
      = map_of live k"
    using assms(1) nk by (intro map_of_filter_key) simp
  ultimately show ?thesis using assms(2)
    by (simp add: patch_attributes_def map_add_def)
next
  case (Some tv)
  let ?f = "\<lambda>(k, v). if k \<in> set (persistentAttributes d) \<and> v = []
            then (case map_of live k of Some old \<Rightarrow> (k, old) | None \<Rightarrow> (k, v)) else (k, v)"
  have "map_of (map ?f target) k = Some (snd (?f (k, tv)))"
    using Some by (subst map_of_map_keep) (auto split: option.splits)
  then have "map_of (patch_attributes d live target) k = Some (snd (?f (k, tv)))"
    by (simp add: patch_attributes_def map_add_def)
  moreover have "v \<noteq> [] \<longrightarrow> snd (?f (k, tv)) \<noteq> []"
    using assms by auto
  ultimately show ?thesis by blast
qed

lemma patch_children_length: "length (patch_children d ls ts) = length ts"
proof (induction ls arbitrary: ts)
  case Nil
  then show ?case by simp
next
  case (Cons l ls)
  then show ?case by (cases ts) simp_all
qed

lemma patch_children_nth:
  "n < length ts \<Longrightarrow>
     patch_children d ls ts ! n = (if n < length ls then patch_node d (ls ! n) (ts ! n) else ts ! n)"
proof (induction ls arbitrary: ts n)
  case Nil
  then show ?case by simp
next
  case (Cons l ls)
  then obtain t ts' where ts: "ts = t # ts'" by (cases ts) auto
  show ?case using Cons ts by (cases n) simp_all
qed

lemma node_ids_nth: "n < length ns \<Longrightarrow> node_ids (ns ! n) \<subseteq> \<Union> (node_ids ` set ns)"
  by (meson UN_upper nth_mem)

lemma node_at_ids:
  "node_at p ns = Some (ElementNode i tag cs ats ks) \<Longrightarrow> i \<in> \<Union> (node_ids ` set ns)"
proof (induction p arbitrary: ns)
  case Nil
  then show ?case by simp
next
  case (Cons n p)
  from Cons.prems have n: "n < length ns" by (simp split: if_splits)
  show ?case
  proof (cases "p = []")
    case True
    with Cons.prems n have "ns ! n = ElementNode i tag cs ats ks" by simp
    then have "i \<in> node_ids (ns ! n)" by simp
    with node_ids_nth[OF n] show ?thesis by blast
  next
    case False
    with Cons.prems n obtain j tg c a kids where e: "ns ! n = ElementNode j tg c a kids"
      and at: "node_at p kids = Some (ElementNode i tag cs ats ks)"
      by (cases "ns ! n") (simp_all)
    from Cons.IH[OF at] have "i \<in> node_ids (ns ! n)" using e by simp
    with node_ids_nth[OF n] show ?thesis by blast
  qed
qed

lemma patch_children_in_place:
  assumes "node_at p live = Some (ElementNode i tag cs ats ks)"
    and "node_at p (patch_children d live target) = Some (ElementNode i tag' cs' ats' ks')"
    and "i \<notin> \<Union> (node_ids ` set target)"
  shows "\<exists>tcs tats. tag' = tag \<and> cs' = patch_classes d cs tcs \<and> ats' = patch_attributes d ats tats"
  using assms
proof (induction p arbitrary: live target)
  case Nil
  then show ?case by simp
next
  case (Cons n p)
  from Cons.prems(1) have nl: "n < length live" by (simp split: if_splits)
  from Cons.prems(2) have nt: "n < length target"
    by (simp add: patch_children_length split: if_splits)
  have res: "patch_children d live target ! n = patch_node d (live ! n) (target ! n)"
    using nl nt by (simp add: patch_children_nth)
  have notin: "i \<notin> node_ids (target ! n)"
    using Cons.prems(3) node_ids_nth[OF nt] by blast
  show ?case
  proof (cases "p = []")
    case True
    with Cons.prems(1) nl have l: "live ! n = ElementNode i tag cs ats ks" by simp
    from True Cons.prems(2) nt have r: "patch_node d (live ! n) (target ! n) = ElementNode i tag' cs' ats' ks'"
      by (simp add: patch_children_length res)
    show ?thesis
    proof (cases "target ! n")
      case (TextNode b)
      with l r show ?thesis by simp
    next
      case (ElementNode j tag2 cs2 ats2 ks2)
      with notin have "j \<noteq> i" by auto
      with l r ElementNode show ?thesis by (auto split: if_splits)
    qed
  next
    case False
    with Cons.prems(1) nl obtain a ta ca aa ka where l: "live ! n = ElementNode a ta ca aa ka"
      and lat: "node_at p ka = Some (ElementNode i tag cs ats ks)"
      by (cases "live ! n") simp_all
    from False Cons.prems(2) nt obtain a' ta' ca' aa' ka' where
      r: "patch_node d (live ! n) (target ! n) = ElementNode a' ta' ca' aa' ka'"
      and rat: "node_at p ka' = Some (ElementNode i tag' cs' ats' ks')"
      by (cases "patch_node d (live ! n) (target ! n)") (simp_all add: patch_children_length res)
    show ?thesis
    proof (cases "target ! n")
      case (TextNode b)
      with l r show ?thesis by simp
    next
      case (ElementNode j tag2 cs2 ats2 ks2)
      show ?thesis
      proof (cases "ta = tag2")
        case True
        with l r ElementNode have "ka' = patch_children d ka ks2" by simp
        moreover have "i \<notin> \<Union> (node_ids ` set ks2)" using notin ElementNode by simp
        ultimately show ?thesis using Cons.IH[OF lat, of ks2] rat by simp
      next
        case neq: False
        with l r ElementNode have "ka' = ks2" by simp
        with rat have "node_at p ks2 = Some (ElementNode i tag' cs' ats' ks')" by simp
        then have "i \<in> \<Union> (node_ids ` set ks2)" by (rule node_at_ids)
        with notin ElementNode show ?thesis by simp
      qed
    qed
  qed
qed

text \<open>
  Claim C5. Take a live element at some path of the content subtree that is still there
  after a patch (the element at that path has the same identity, which no node of the
  target tree has). Every class of the persistent-class set that it carried before the
  patch it still carries after, in particular \<^verbatim>\<open>mounted\<close>, \<^verbatim>\<open>element-found\<close> and \<^verbatim>\<open>active\<close>,
  which the constructor adds to the set; and every attribute of the persistent-attribute
  set that it had, in particular \<^verbatim>\<open>src\<close>, it still has, with a value that is not empty if
  it was not empty before. This holds whatever the target markup is.
\<close>

theorem patch_keeps_persistent:
  assumes "node_at p live = Some (ElementNode i tag cs ats ks)"
    and "node_at p (patch_children (constructor_persistence d) live target)
           = Some (ElementNode i tag' cs' ats' ks')"
    and "i \<notin> \<Union> (node_ids ` set target)"
  shows "(\<forall>c\<in>set cs. c \<in> set (persistentClasses (constructor_persistence d)) \<longrightarrow> c \<in> set cs')
       \<and> (\<forall>c\<in>{''mounted'', ''element-found'', ''active''}. c \<in> set cs \<longrightarrow> c \<in> set cs')
       \<and> (\<forall>k\<in>set (persistentAttributes (constructor_persistence d)). \<forall>v.
             map_of ats k = Some v \<longrightarrow>
             (\<exists>v'. map_of ats' k = Some v' \<and> (v \<noteq> [] \<longrightarrow> v' \<noteq> [])))
       \<and> (\<forall>v. map_of ats ''src'' = Some v \<longrightarrow>
             (\<exists>v'. map_of ats' ''src'' = Some v' \<and> (v \<noteq> [] \<longrightarrow> v' \<noteq> [])))"
proof -
  let ?d = "constructor_persistence d"
  from patch_children_in_place[OF assms]
  obtain tcs tats where cs': "cs' = patch_classes ?d cs tcs"
    and ats': "ats' = patch_attributes ?d ats tats" by blast
  have c1: "\<forall>c\<in>set cs. c \<in> set (persistentClasses ?d) \<longrightarrow> c \<in> set cs'"
    using cs' patch_classes_keeps by blast
  have c2: "\<forall>c\<in>{''mounted'', ''element-found'', ''active''}. c \<in> set cs \<longrightarrow> c \<in> set cs'"
    using c1 constructor_persistence_classes[of d] by blast
  have c3: "\<forall>k\<in>set (persistentAttributes ?d). \<forall>v.
             map_of ats k = Some v \<longrightarrow>
             (\<exists>v'. map_of ats' k = Some v' \<and> (v \<noteq> [] \<longrightarrow> v' \<noteq> []))"
    using ats' patch_attributes_keeps by blast
  have "''src'' \<in> set (persistentAttributes ?d)"
    by (simp add: constructor_persistence_attributes)
  with c3 have c4: "\<forall>v. map_of ats ''src'' = Some v \<longrightarrow>
             (\<exists>v'. map_of ats' ''src'' = Some v' \<and> (v \<noteq> [] \<longrightarrow> v' \<noteq> []))" by blast
  from c1 c2 c3 c4 show ?thesis by blast
qed

theorem patch_keeps_persistent_witness:
  "node_at [0, 0]
     [ElementNode 1 ''DIV'' [''card'', ''mounted''] [(''title'', ''x'')]
        [ElementNode 2 ''IMG'' [''lazy'', ''element-found''] [(''src'', ''/b.png'')] []]]
     = Some (ElementNode 2 ''IMG'' [''lazy'', ''element-found''] [(''src'', ''/b.png'')] [])
   \<and> node_at [0, 0]
       (patch_children (constructor_persistence \<lparr>persistentClasses = [], persistentAttributes = []\<rparr>)
          [ElementNode 1 ''DIV'' [''card'', ''mounted''] [(''title'', ''x'')]
             [ElementNode 2 ''IMG'' [''lazy'', ''element-found''] [(''src'', ''/b.png'')] []]]
          [ElementNode 10 ''DIV'' [''card''] []
             [ElementNode 11 ''IMG'' [''lazy''] [(''src'', [])] []]])
     = Some (ElementNode 2 ''IMG'' [''lazy'', ''element-found''] [(''src'', ''/b.png'')] [])
   \<and> 2 \<notin> \<Union> (node_ids ` set [ElementNode 10 ''DIV'' [''card''] []
             [ElementNode 11 ''IMG'' [''lazy''] [(''src'', [])] []]])
   \<and> ''element-found'' \<in> set [''lazy'', ''element-found'']
   \<and> map_of [(''src'', ''/b.png'')] ''src'' = Some ''/b.png''"
  using patch_keeps_persistent[where p = "[0, 0]"
      and live = "[ElementNode 1 ''DIV'' [''card'', ''mounted''] [(''title'', ''x'')]
             [ElementNode 2 ''IMG'' [''lazy'', ''element-found''] [(''src'', ''/b.png'')] []]]"
      and target = "[ElementNode 10 ''DIV'' [''card''] []
             [ElementNode 11 ''IMG'' [''lazy''] [(''src'', [])] []]]"
      and d = "\<lparr>persistentClasses = [], persistentAttributes = []\<rparr>"
      and i = 2 and tag = "''IMG''" and cs = "[''lazy'', ''element-found'']"
      and ats = "[(''src'', ''/b.png'')]" and ks = "[]"
      and tag' = "''IMG''" and cs' = "[''lazy'', ''element-found'']"
      and ats' = "[(''src'', ''/b.png'')]" and ks' = "[]"]
  by (simp add: constructor_persistence_def set_add_def patch_classes_def patch_attributes_def Let_def)

end
